theory Spec2Isabelle
  imports
    Complex_Main
    "HOL-Library.Char_ord"
    "HOL-Library.List_Lexorder"
    "HOL-Library.Log_Nat"
    "HOL-Library.Multiset"
    "HOL-Library.Sublist"
begin

section \<open>JavaScript values used by the practice-test generator\<close>

text \<open>
  A JavaScript string is modelled as a \<^typ>\<open>string\<close> (a list of code units) and compared
  lexicographically by code unit, which is the order the default \<^verbatim>\<open>Array.prototype.sort\<close>
  uses.  An entry of an answer array is a string, or \<^verbatim>\<open>null\<close>/\<^verbatim>\<open>undefined\<close>
  (\<^term>\<open>None\<close>): the question generator reads \<^verbatim>\<open>q.options[idx]\<close> without a range check,
  and \<^verbatim>\<open>JSON.stringify\<close> stores the resulting \<^verbatim>\<open>undefined\<close> as \<^verbatim>\<open>null\<close>.
\<close>

type_synonym answer = "string option"

text \<open>\<^verbatim>\<open>xs[i]\<close> on an array: \<^verbatim>\<open>undefined\<close> outside the range, no exception.\<close>

definition js_index :: "'a list \<Rightarrow> int \<Rightarrow> 'a option" where
  "js_index xs i = (if 0 \<le> i \<and> nat i < length xs then Some (xs ! nat i) else None)"

text \<open>\<^verbatim>\<open>String(n)\<close> for a non-negative integer: its decimal digits.\<close>

definition digit_char :: "nat \<Rightarrow> char" where
  "digit_char d = ''0123456789'' ! d"

fun show_nat :: "nat \<Rightarrow> string" where
  "show_nat n = (if n < 10 then [digit_char n] else show_nat (n div 10) @ [digit_char (n mod 10)])"

declare show_nat.simps [simp del]

text \<open>
  The text of an array entry inside \<^verbatim>\<open>join\<close> (\<^verbatim>\<open>null\<close> and \<^verbatim>\<open>undefined\<close> give the
  empty string) and the key by which the default \<^verbatim>\<open>sort\<close> compares an entry read back from
  JSON (\<^verbatim>\<open>String(null)\<close> is \<^verbatim>\<open>"null"\<close>).
\<close>

definition join_text :: "answer \<Rightarrow> string" where
  "join_text a = (case a of None \<Rightarrow> [] | Some s \<Rightarrow> s)"

definition sort_text :: "answer \<Rightarrow> string" where
  "sort_text a = (case a of None \<Rightarrow> ''null'' | Some s \<Rightarrow> s)"

text \<open>\<^verbatim>\<open>pieces.join(sep)\<close> on an array of strings.\<close>

fun join_strings :: "string \<Rightarrow> string list \<Rightarrow> string" where
  "join_strings sep [] = []"
| "join_strings sep [x] = x"
| "join_strings sep (x # y # ys) = x @ sep @ join_strings sep (y # ys)"

text \<open>\<^verbatim>\<open>[...xs].sort().join(',')\<close>: a stable sort of a copy by string value, then the join.\<close>

definition sorted_join :: "answer list \<Rightarrow> string" where
  "sorted_join xs = join_strings '','' (map join_text (sort_key sort_text xs))"

section \<open>Binary64 arithmetic\<close>

text \<open>
  A JavaScript number is an IEEE 754 binary64 value.  The finite values that occur here are
  modelled as rationals; every arithmetic result is rounded to the nearest value with a 53-bit
  significand, ties to even.  The exponent range is not modelled: the operands are question
  counts, array lengths and their quotients, far from overflow and underflow.
\<close>

text \<open>\<open>ilog2 x\<close> is the integer \<open>e\<close> with \<open>2^e \<le> x < 2^(e+1)\<close>, for \<open>x > 0\<close>.\<close>

definition ilog2 :: "rat \<Rightarrow> int" where
  "ilog2 x = (let (p, q) = quotient_of x; e0 = bitlen p - bitlen q
              in if 2 powi e0 \<le> x then e0 else e0 - 1)"

definition round_half_even :: "rat \<Rightarrow> int" where
  "round_half_even m =
     (let f = \<lfloor>m\<rfloor>; d = m - of_int f
      in if d < 1 / 2 then f else if 1 / 2 < d then f + 1 else if even f then f else f + 1)"

definition fl64 :: "rat \<Rightarrow> rat" where
  "fl64 x =
     (if x = 0 then 0
      else let a = \<bar>x\<bar>; u = 2 powi (ilog2 a - 52)
           in sgn x * (of_int (round_half_even (a / u)) * u))"

text \<open>The literal \<^verbatim>\<open>0.6\<close>: the binary64 value nearest to 3/5.\<close>

definition double_0_6 :: rat where
  "double_0_6 = fl64 (3 / 5)"

text \<open>
  A number as \<^verbatim>\<open>calculateScore\<close> returns it: a finite value or \<^verbatim>\<open>NaN\<close>.
\<close>

datatype js_number = Num int | NaN

text \<open>
  \<^verbatim>\<open>Math.round((correct / n) * 100)\<close> for the counter and the length, where the counter never
  exceeds the length: with no questions \<^verbatim>\<open>0 / 0\<close> is \<^verbatim>\<open>NaN\<close> and stays \<^verbatim>\<open>NaN\<close>;
  otherwise the quotient and the product are each rounded to binary64 and \<^verbatim>\<open>Math.round\<close> is
  \<open>\<lfloor>x + 1/2\<rfloor>\<close>, computed exactly.
\<close>

definition math_round :: "rat \<Rightarrow> int" where
  "math_round x = \<lfloor>x + 1 / 2\<rfloor>"

definition percent_score :: "nat \<Rightarrow> nat \<Rightarrow> js_number" where
  "percent_score c n =
     (if n = 0 then NaN
      else Num (math_round (fl64 (fl64 (of_nat c / of_nat n) * 100))))"

section \<open>Data model (\<^verbatim>\<open>src/types/index.ts\<close>)\<close>

datatype question_type = MultipleChoice | MultipleSelect

record question =
  qid :: string
  qtype :: question_type
  question :: string
  options :: "string list"
  correctAnswers :: "answer list"
  explanation :: string

record practice_test =
  test_id :: string
  certificationName :: string
  certificationUrl :: "string option"
  generatedAt :: string
  questionCount :: nat
  questions :: "question list"

section \<open>The scorer (\<^verbatim>\<open>APIRoutes.calculateScore\<close>)\<close>

record score_detail =
  questionId :: string
  correct :: bool
  userAnswers :: "answer list"
  detail_correctAnswers :: "answer list"

record score_result =
  score :: js_number
  total :: nat
  result_correct :: nat
  incorrect :: int
  details :: "score_detail list"

text \<open>
  \<^verbatim>\<open>answers[question.id]\<close> reads the property of the submitted object: its own entry for the
  id when there is one, otherwise what \<^verbatim>\<open>Object.prototype\<close> holds under that name (a function,
  or for \<^verbatim>\<open>__proto__\<close> the prototype object), otherwise \<^verbatim>\<open>undefined\<close>.  The names below
  are the properties of \<^verbatim>\<open>Object.prototype\<close>.
\<close>

definition object_prototype_names :: "string list" where
  "object_prototype_names =
     [''constructor'', ''hasOwnProperty'', ''isPrototypeOf'', ''propertyIsEnumerable'',
      ''toLocaleString'', ''toString'', ''valueOf'', ''__defineGetter__'', ''__defineSetter__'',
      ''__lookupGetter__'', ''__lookupSetter__'', ''__proto__'']"

datatype property = Entry "answer list" | Inherited | Undefined

definition get_property :: "(string \<rightharpoonup> answer list) \<Rightarrow> string \<Rightarrow> property" where
  "get_property answers k =
     (case answers k of
        Some xs \<Rightarrow> Entry xs
      | None \<Rightarrow> if k \<in> set object_prototype_names then Inherited else Undefined)"

text \<open>
  \<^verbatim>\<open>answers[question.id] || []\<close>: an array and an inherited value are truthy and are kept,
  \<^verbatim>\<open>undefined\<close> gives the empty array.
\<close>

definition lookup_answers :: "(string \<rightharpoonup> answer list) \<Rightarrow> string \<Rightarrow> property" where
  "lookup_answers answers k =
     (case get_property answers k of Undefined \<Rightarrow> Entry [] | v \<Rightarrow> v)"

text \<open>
  A thrown value: an \<^verbatim>\<open>Error\<close> with its message, or anything else.  The message of the
  \<^verbatim>\<open>TypeError\<close> for spreading a value that is not iterable is worded by the engine.
\<close>

datatype js_error = Error string | Thrown

definition not_iterable :: js_error where
  "not_iterable = Error ''TypeError: userAnswers is not iterable''"

text \<open>\<^verbatim>\<open>[...userAnswers]\<close>: a copy of an array; a function or a plain object is not iterable.\<close>

definition spread :: "property \<Rightarrow> js_error + answer list" where
  "spread v = (case v of Entry xs \<Rightarrow> Inr xs | _ \<Rightarrow> Inl not_iterable)"

definition isCorrect :: "answer list \<Rightarrow> answer list \<Rightarrow> bool" where
  "isCorrect us cs = (sorted_join us = sorted_join cs)"

text \<open>
  One pass of the loop body.  In the detail record \<^verbatim>\<open>userAnswers\<close> is the array that was
  read; the pass that reads an inherited value throws before the record is built.
\<close>

definition score_question ::
  "(string \<rightharpoonup> answer list) \<Rightarrow> question \<Rightarrow> js_error + score_detail" where
  "score_question answers q =
     (case spread (lookup_answers answers (qid q)) of
        Inl err \<Rightarrow> Inl err
      | Inr us \<Rightarrow>
          (let cs = correctAnswers q
           in Inr \<lparr>questionId = qid q, correct = isCorrect us cs, userAnswers = us,
                   detail_correctAnswers = cs\<rparr>))"

text \<open>The loop over \<^verbatim>\<open>test.questions\<close>, with the counter and the detail array as state.\<close>

fun score_loop ::
  "(string \<rightharpoonup> answer list) \<Rightarrow> question list \<Rightarrow> nat \<times> score_detail list \<Rightarrow>
   js_error + nat \<times> score_detail list" where
  "score_loop answers [] st = Inr st"
| "score_loop answers (q # qs) (c, ds) =
     (case score_question answers q of
        Inl err \<Rightarrow> Inl err
      | Inr d \<Rightarrow> score_loop answers qs (if correct d then c + 1 else c, ds @ [d]))"

definition calculateScore ::
  "practice_test \<Rightarrow> (string \<rightharpoonup> answer list) \<Rightarrow> js_error + score_result" where
  "calculateScore test answers =
     (case score_loop answers (questions test) (0, []) of
        Inl err \<Rightarrow> Inl err
      | Inr (c, ds) \<Rightarrow>
          (let n = length (questions test)
           in Inr \<lparr>score = percent_score c n, total = n, result_correct = c,
                   incorrect = int n - int c, details = ds\<rparr>))"

text \<open>
  Conditions on answer arrays: every entry is a string (none is \<^verbatim>\<open>null\<close>); every entry is
  a string without a comma; and the one pair of comma-free arrays with the same joined text,
  the empty array and the array holding only the empty string.
\<close>

definition text_answers :: "answer list \<Rightarrow> bool" where
  "text_answers xs = list_all (\<lambda>a. a \<noteq> None) xs"

definition comma_free :: "string \<Rightarrow> bool" where
  "comma_free s = (CHR '','' \<notin> set s)"

definition comma_free_answer :: "answer \<Rightarrow> bool" where
  "comma_free_answer a = (case a of None \<Rightarrow> False | Some s \<Rightarrow> comma_free s)"

definition comma_free_answers :: "answer list \<Rightarrow> bool" where
  "comma_free_answers xs = list_all comma_free_answer xs"

definition blank_pair :: "answer list \<Rightarrow> answer list \<Rightarrow> bool" where
  "blank_pair us cs = ((us = [] \<and> cs = [Some []]) \<or> (us = [Some []] \<and> cs = []))"

text \<open>The pass over a question reads an inherited value: no own entry, an inherited name.\<close>

definition reads_inherited :: "(string \<rightharpoonup> answer list) \<Rightarrow> question \<Rightarrow> bool" where
  "reads_inherited answers q = (answers (qid q) = None \<and> qid q \<in> set object_prototype_names)"

section \<open>String operations of the request handler\<close>

definition startsWith :: "string \<Rightarrow> string \<Rightarrow> bool" where
  "startsWith s p = (take (length p) s = p)"

definition endsWith :: "string \<Rightarrow> string \<Rightarrow> bool" where
  "endsWith s p = (length p \<le> length s \<and> drop (length s - length p) s = p)"

text \<open>\<^verbatim>\<open>s.split(sep)\<close> for a non-empty separator, scanning left to right.\<close>

function split_from :: "string \<Rightarrow> string \<Rightarrow> string \<Rightarrow> string list" where
  "split_from sep acc [] = [rev acc]"
| "split_from sep acc (c # cs) =
     (if sep \<noteq> [] \<and> startsWith (c # cs) sep
      then rev acc # split_from sep [] (drop (length sep) (c # cs))
      else split_from sep (c # acc) cs)"
  by pat_completeness auto
termination
  by (relation "measure (\<lambda>(sep, acc, s). length s)") auto

definition split_str :: "string \<Rightarrow> string \<Rightarrow> string list" where
  "split_str s sep = split_from sep [] s"

text \<open>\<^verbatim>\<open>s.replace(pat, rep)\<close> with a string pattern: the first occurrence only.\<close>

fun replace_first :: "string \<Rightarrow> string \<Rightarrow> string \<Rightarrow> string" where
  "replace_first pat rep [] = (if pat = [] then rep else [])"
| "replace_first pat rep (c # cs) =
     (if startsWith (c # cs) pat then rep @ drop (length pat) (c # cs)
      else c # replace_first pat rep cs)"

section \<open>The question generator (\<^verbatim>\<open>src/services/questionGenerator.ts\<close>)\<close>

text \<open>The message the \<^verbatim>\<open>catch\<close> block of a sub-batch generator reads from a thrown value.\<close>

definition error_message :: "js_error \<Rightarrow> string" where
  "error_message e = (case e of Error m \<Rightarrow> m | Thrown \<Rightarrow> ''Unknown error'')"

record web_item =
  title :: string
  url :: string
  snippet :: string
  content :: "string option"

text \<open>
  The prompt sent to the completion service.  The instruction text is fixed for each question
  kind; what varies is the requested count and the first 15000 characters of the content.
\<close>

record prompt =
  p_kind :: question_type
  p_count :: int
  p_excerpt :: string

text \<open>
  One element of the array the completion service is asked for, after \<^verbatim>\<open>JSON.parse\<close>: the
  fields have the types of the output contract, their values are whatever the reply holds.
\<close>

record raw_mc =
  mc_question :: string
  mc_options :: "string list"
  mc_correctAnswer :: int
  mc_explanation :: string

record raw_ms =
  ms_question :: string
  ms_options :: "string list"
  ms_correctAnswers :: "int list"
  ms_explanation :: string

text \<open>
  What the code takes from outside: the completion service (the content of the first choice,
  \<^term>\<open>None\<close> when it is absent), \<^verbatim>\<open>JSON.parse\<close>, the clock read while mapping the element
  at an index, the successive values of \<^verbatim>\<open>Math.random()\<close>, and for the test assembler the
  content extractor, the clock, the random id suffix, the analyzer and the search client.
\<close>

record structured_content =
  sc_title :: string
  headings :: "string list"
  paragraphs :: "string list"
  list_items :: "string list"

record content_analysis =
  keyTopics :: "string list"
  concepts :: "string list"
  summary :: string

record env =
  completion :: "prompt \<Rightarrow> js_error + string option"
  parse_mc :: "string \<Rightarrow> js_error + raw_mc list"
  parse_ms :: "string \<Rightarrow> js_error + raw_ms list"
  mc_now :: "nat \<Rightarrow> nat"
  ms_now :: "nat \<Rightarrow> nat"
  random :: "nat \<Rightarrow> rat"
  fetchContent :: "string \<Rightarrow> js_error + string"
  test_now :: nat
  id_suffix :: string
  iso_now :: string
  fetch_text :: "string \<Rightarrow> js_error + string"
  extractStructuredContent :: "string \<Rightarrow> js_error + structured_content"
  analyzeContent :: "string \<Rightarrow> structured_content \<Rightarrow> js_error + content_analysis"
  extractSearchQueries :: "content_analysis \<Rightarrow> js_error + string list"
  web_search :: "string \<Rightarrow> js_error + web_item list"

text \<open>
  \<^verbatim>\<open>content.match(/\[[\s\S]*\]/)\<close>: from the first opening bracket to the last closing
  bracket after it.
\<close>

definition json_array_match :: "string \<Rightarrow> string option" where
  "json_array_match s =
     (let t = dropWhile (\<lambda>c. c \<noteq> CHR ''['') s;
          r = rev (dropWhile (\<lambda>c. c \<noteq> CHR '']'') (rev t))
      in if r = [] then None else Some r)"

definition mc_to_question :: "(nat \<Rightarrow> nat) \<Rightarrow> nat \<Rightarrow> raw_mc \<Rightarrow> question" where
  "mc_to_question now i q =
     \<lparr>qid = ''mc-'' @ show_nat (now i) @ ''-'' @ show_nat i,
      qtype = MultipleChoice,
      question = mc_question q,
      options = mc_options q,
      correctAnswers = [js_index (mc_options q) (mc_correctAnswer q)],
      explanation = mc_explanation q\<rparr>"

definition ms_to_question :: "(nat \<Rightarrow> nat) \<Rightarrow> nat \<Rightarrow> raw_ms \<Rightarrow> question" where
  "ms_to_question now i q =
     \<lparr>qid = ''ms-'' @ show_nat (now i) @ ''-'' @ show_nat i,
      qtype = MultipleSelect,
      question = ms_question q,
      options = ms_options q,
      correctAnswers = map (js_index (ms_options q)) (ms_correctAnswers q),
      explanation = ms_explanation q\<rparr>"

text \<open>\<^verbatim>\<open>parsed.map((q, index) => ...)\<close>.\<close>

definition map_index :: "(nat \<Rightarrow> 'a \<Rightarrow> 'b) \<Rightarrow> 'a list \<Rightarrow> 'b list" where
  "map_index f xs = map (\<lambda>(i, x). f i x) (zip [0..<length xs] xs)"

text \<open>The \<^verbatim>\<open>catch\<close> block of both sub-batch generators.\<close>

definition rethrow :: "js_error + 'a \<Rightarrow> js_error + 'a" where
  "rethrow r =
     (case r of
        Inl e \<Rightarrow> Inl (Error (''Failed to generate questions: '' @ error_message e))
      | Inr v \<Rightarrow> Inr v)"

text \<open>The reply text, or the errors thrown before parsing.\<close>

definition reply_json :: "js_error + string option \<Rightarrow> js_error + string" where
  "reply_json r =
     (case r of
        Inl e \<Rightarrow> Inl e
      | Inr None \<Rightarrow> Inl (Error ''No response from OpenAI'')
      | Inr (Some c) \<Rightarrow>
          if c = [] then Inl (Error ''No response from OpenAI'')
          else (case json_array_match c of
                  None \<Rightarrow> Inl (Error ''Invalid JSON response from OpenAI'')
                | Some j \<Rightarrow> Inr j))"

text \<open>
  Each sub-batch generator returns its result and the prompts it sent (always exactly one).
\<close>

definition generateMultipleChoiceQuestions ::
  "env \<Rightarrow> string \<Rightarrow> int \<Rightarrow> (js_error + question list) \<times> prompt list" where
  "generateMultipleChoiceQuestions e text n =
     (let p = \<lparr>p_kind = MultipleChoice, p_count = n, p_excerpt = take 15000 text\<rparr>
      in (rethrow
            (case reply_json (completion e p) of
               Inl err \<Rightarrow> Inl err
             | Inr j \<Rightarrow>
                 (case parse_mc e j of
                    Inl err \<Rightarrow> Inl err
                  | Inr parsed \<Rightarrow> Inr (map_index (mc_to_question (mc_now e)) parsed))),
          [p]))"

definition generateMultipleSelectQuestions ::
  "env \<Rightarrow> string \<Rightarrow> int \<Rightarrow> (js_error + question list) \<times> prompt list" where
  "generateMultipleSelectQuestions e text n =
     (let p = \<lparr>p_kind = MultipleSelect, p_count = n, p_excerpt = take 15000 text\<rparr>
      in (rethrow
            (case reply_json (completion e p) of
               Inl err \<Rightarrow> Inl err
             | Inr j \<Rightarrow>
                 (case parse_ms e j of
                    Inl err \<Rightarrow> Inl err
                  | Inr parsed \<Rightarrow> Inr (map_index (ms_to_question (ms_now e)) parsed))),
          [p]))"

text \<open>
  \<^verbatim>\<open>shuffleArray\<close>: the loop runs \<open>i\<close> from \<open>length - 1\<close> down to \<open>1\<close>; \<open>k\<close> counts the calls of
  \<^verbatim>\<open>Math.random()\<close> made so far.  \<^verbatim>\<open>Math.random()\<close> returns a binary64 value in \<open>[0, 1)\<close>,
  that is, at most \<open>1 - 2^-53\<close> (\<open>random_ok\<close>); for such a draw \<open>j \<le> i\<close> and both reads are in
  range (lemma \<open>random_index_le\<close>).  Outside that contract the code would write past the
  array, which the list operations here do not follow; every property of the shuffle below is
  stated under \<open>random_ok\<close>.
\<close>

definition random_ok :: "(nat \<Rightarrow> rat) \<Rightarrow> bool" where
  "random_ok rnd = (\<forall>k. 0 \<le> rnd k \<and> rnd k \<le> 1 - 1 / 2 ^ 53)"

definition random_index :: "rat \<Rightarrow> nat \<Rightarrow> nat" where
  "random_index r i = nat \<lfloor>fl64 (r * of_nat (i + 1))\<rfloor>"

definition swap :: "nat \<Rightarrow> nat \<Rightarrow> 'a list \<Rightarrow> 'a list" where
  "swap i j xs = (xs[i := xs ! j])[j := xs ! i]"

fun shuffle_loop :: "(nat \<Rightarrow> rat) \<Rightarrow> nat \<Rightarrow> nat \<Rightarrow> 'a list \<Rightarrow> 'a list" where
  "shuffle_loop rnd k 0 xs = xs"
| "shuffle_loop rnd k (Suc i) xs =
     shuffle_loop rnd (k + 1) i (swap (Suc i) (random_index (rnd k) (Suc i)) xs)"

definition shuffleArray :: "(nat \<Rightarrow> rat) \<Rightarrow> 'a list \<Rightarrow> 'a list" where
  "shuffleArray rnd xs = shuffle_loop rnd 0 (length xs - 1) xs"

definition item_text :: "web_item \<Rightarrow> string" where
  "item_text item =
     title item @ [CHR 0x0A] @ snippet item @
     (case content item of
        None \<Rightarrow> []
      | Some c \<Rightarrow> if c = [] then [] else [CHR 0x0A] @ c)"

definition combinedContent :: "string \<Rightarrow> web_item list \<Rightarrow> string" where
  "combinedContent studyGuideContent webContent =
     [CHR 0x0A] @ ''STUDY GUIDE CONTENT:'' @ [CHR 0x0A] @ studyGuideContent @
     [CHR 0x0A, CHR 0x0A] @ ''ADDITIONAL WEB CONTENT:'' @ [CHR 0x0A] @
     join_strings ([CHR 0x0A, CHR 0x0A] @ ''---'' @ [CHR 0x0A, CHR 0x0A]) (map item_text webContent) @
     [CHR 0x0A]"

text \<open>\<^verbatim>\<open>Math.floor(questionCount * 0.6)\<close> and the remainder (an exact difference of integers).\<close>

definition multipleChoiceCount :: "int \<Rightarrow> int" where
  "multipleChoiceCount n = \<lfloor>fl64 (of_int n * double_0_6)\<rfloor>"

definition multipleSelectCount :: "int \<Rightarrow> int" where
  "multipleSelectCount n = n - multipleChoiceCount n"

definition generateQuestions ::
  "env \<Rightarrow> string \<Rightarrow> web_item list \<Rightarrow> int \<Rightarrow> (js_error + question list) \<times> prompt list" where
  "generateQuestions e studyGuideContent webContent n =
     (let text = combinedContent studyGuideContent webContent;
          mcCount = multipleChoiceCount n;
          msCount = multipleSelectCount n;
          (r1, calls1) =
            (if 0 < mcCount then generateMultipleChoiceQuestions e text mcCount else (Inr [], []))
      in case r1 of
           Inl err \<Rightarrow> (Inl err, calls1)
         | Inr mcQuestions \<Rightarrow>
             (let (r2, calls2) =
                (if 0 < msCount then generateMultipleSelectQuestions e text msCount
                 else (Inr [], []))
              in case r2 of
                   Inl err \<Rightarrow> (Inl err, calls1 @ calls2)
                 | Inr msQuestions \<Rightarrow>
                     (Inr (shuffleArray (random e) (mcQuestions @ msQuestions)),
                      calls1 @ calls2)))"

section \<open>Paths (\<^verbatim>\<open>join\<close> of the \<^verbatim>\<open>path\<close> module)\<close>

text \<open>
  \<^verbatim>\<open>normalizeString\<close> walks over the segments between separators and keeps the result so
  far; here the result is the list of its segments, last one first.  An empty segment and
  \<^verbatim>\<open>.\<close> are skipped; \<^verbatim>\<open>..\<close> removes the last segment unless there is none or it is
  \<^verbatim>\<open>..\<close> itself, and is then kept only when the path is relative (\<open>allowAboveRoot\<close>); any other
  segment is appended.
\<close>

definition normalize_step :: "bool \<Rightarrow> string list \<Rightarrow> string \<Rightarrow> string list" where
  "normalize_step allowAboveRoot res seg =
     (if seg = [] \<or> seg = ''.'' then res
      else if seg = ''..'' then
        (case res of
           [] \<Rightarrow> if allowAboveRoot then [''..''] else []
         | s # rest \<Rightarrow> if s = ''..'' then (if allowAboveRoot then ''..'' # res else res) else rest)
      else seg # res)"

definition normalizeString :: "string \<Rightarrow> bool \<Rightarrow> string" where
  "normalizeString path allowAboveRoot =
     join_strings ''/'' (rev (foldl (normalize_step allowAboveRoot) [] (split_str path ''/'')))"

definition normalize :: "string \<Rightarrow> string" where
  "normalize path =
     (if path = [] then ''.''
      else
        (let isAbsolute = (hd path = CHR ''/'');
             trailingSeparator = (last path = CHR ''/'');
             p = normalizeString path (\<not> isAbsolute)
         in if p = [] then (if isAbsolute then ''/'' else if trailingSeparator then ''./'' else ''.'')
            else (if isAbsolute then ''/'' else []) @ p @
                 (if trailingSeparator then ''/'' else [])))"

text \<open>\<^verbatim>\<open>join(a, b)\<close>: the non-empty arguments with a separator between them, normalized.\<close>

definition path_join :: "string \<Rightarrow> string \<Rightarrow> string" where
  "path_join a b =
     (let joined = (if a = [] then b else if b = [] then a else a @ ''/'' @ b)
      in if joined = [] then ''.'' else normalize joined)"

text \<open>
  A string without a separator (every generated id is one), and a segment that
  \<^verbatim>\<open>normalizeString\<close> appends as it is.  For a directory \<open>d\<close>, the segments that are left of
  it and the text that \<^verbatim>\<open>join(d, name)\<close> puts before such a \<open>name\<close> (lemma
  \<open>path_join_plain\<close>).
\<close>

definition slash_free :: "string \<Rightarrow> bool" where
  "slash_free s = (CHR ''/'' \<notin> set s)"

definition plain_segment :: "string \<Rightarrow> bool" where
  "plain_segment s = (s \<noteq> [] \<and> s \<noteq> ''.'' \<and> s \<noteq> ''..'' \<and> slash_free s)"

definition dir_segments :: "string \<Rightarrow> string list" where
  "dir_segments d = foldl (normalize_step (\<not> startsWith d ''/'')) [] (split_str d ''/'')"

definition dir_prefix :: "string \<Rightarrow> string" where
  "dir_prefix d =
     (if startsWith d ''/'' then ''/'' else []) @
     (if dir_segments d = [] then [] else join_strings ''/'' (rev (dir_segments d)) @ ''/'')"

section \<open>Test storage (\<^verbatim>\<open>src/services/testStorage.ts\<close>)\<close>

text \<open>
  A session as the submission branch builds it.  \<^verbatim>\<open>JSON.stringify\<close> leaves out an absent
  field and writes a \<^verbatim>\<open>NaN\<close> score as \<^verbatim>\<open>null\<close> (\<open>json_session\<close>).
\<close>

record test_session =
  s_testId :: string
  s_answers :: "string \<rightharpoonup> answer list"
  startedAt :: string
  completedAt :: "string option"
  s_score :: "js_number option"

definition json_session :: "test_session \<Rightarrow> test_session" where
  "json_session s =
     s\<lparr>s_score := (case s_score s of Some (Num n) \<Rightarrow> Some (Num n) | _ \<Rightarrow> None)\<rparr>"

text \<open>
  The file system as a map from file path to file.  A file holds a test document as
  \<^verbatim>\<open>saveTest\<close> wrote it or a session document as \<^verbatim>\<open>saveSession\<close> wrote it, which
  \<^verbatim>\<open>JSON.parse\<close> reads back, or content on which \<^verbatim>\<open>readFile\<close> or \<^verbatim>\<open>JSON.parse\<close> throws.
  The paths are the normalized ones that \<^verbatim>\<open>join\<close> returns.  A write is taken to succeed:
  \<^verbatim>\<open>ensureDirectoryExists\<close> and \<^verbatim>\<open>saveSession\<close> create the directories in which the file
  of an id without a slash lies.
\<close>

datatype stored_file = TestFile practice_test | SessionFile test_session | Unreadable js_error

record storage =
  storageDir :: string
  files :: "string \<rightharpoonup> stored_file"

definition test_path :: "storage \<Rightarrow> string \<Rightarrow> string" where
  "test_path st testId = path_join (storageDir st) (testId @ ''.json'')"

definition saveTest :: "storage \<Rightarrow> practice_test \<Rightarrow> storage" where
  "saveTest st test = st\<lparr>files := (files st)(test_path st (test_id test) \<mapsto> TestFile test)\<rparr>"

text \<open>\<^verbatim>\<open>saveSession\<close>; \<open>now\<close> is the value of \<^verbatim>\<open>Date.now()\<close>.\<close>

definition session_path :: "storage \<Rightarrow> string \<Rightarrow> nat \<Rightarrow> string" where
  "session_path st testId now =
     (let sessionsDir = path_join (storageDir st) ''sessions''
      in path_join sessionsDir (testId @ ''-'' @ show_nat now @ ''.json''))"

definition saveSession :: "storage \<Rightarrow> test_session \<Rightarrow> nat \<Rightarrow> storage" where
  "saveSession st session now =
     st\<lparr>files := (files st)(session_path st (s_testId session) now \<mapsto>
                              SessionFile (json_session session))\<rparr>"

text \<open>
  What \<^verbatim>\<open>JSON.parse(content) as PracticeTest\<close> returns: the document of the file, whichever
  kind it is (the cast checks nothing).
\<close>

datatype document = TestDoc practice_test | SessionDoc test_session

text \<open>The body of the \<^verbatim>\<open>try\<close> block of \<^verbatim>\<open>loadTest\<close>, and \<^verbatim>\<open>loadTest\<close> with its \<^verbatim>\<open>catch\<close>.\<close>

definition loadTest_try :: "storage \<Rightarrow> string \<Rightarrow> js_error + document option" where
  "loadTest_try st filePath =
     (case files st filePath of
        None \<Rightarrow> Inr None
      | Some (Unreadable err) \<Rightarrow> Inl err
      | Some (TestFile test) \<Rightarrow> Inr (Some (TestDoc test))
      | Some (SessionFile session) \<Rightarrow> Inr (Some (SessionDoc session)))"

definition loadTest :: "storage \<Rightarrow> string \<Rightarrow> js_error + document option" where
  "loadTest st testId =
     (case loadTest_try st (test_path st testId) of
        Inl err \<Rightarrow> Inr None
      | Inr r \<Rightarrow> Inr r)"

text \<open>
  The history of a storage directory: the tests and sessions saved into it, in order, and the
  test last saved under an id.
\<close>

datatype storage_op = SaveTest practice_test | SaveSession test_session nat

fun apply_op :: "storage \<Rightarrow> storage_op \<Rightarrow> storage" where
  "apply_op st (SaveTest test) = saveTest st test"
| "apply_op st (SaveSession session now) = saveSession st session now"

definition storage_after :: "storage \<Rightarrow> storage_op list \<Rightarrow> storage" where
  "storage_after st ops = foldl apply_op st ops"




section \<open>The routes (\<^verbatim>\<open>APIRoutes\<close>)\<close>

definition getTest :: "storage \<Rightarrow> string \<Rightarrow> js_error + document option" where
  "getTest st testId = loadTest st testId"








section \<open>The request handler (\<^verbatim>\<open>Bun.serve\<close> in \<^verbatim>\<open>src/server/index.ts\<close>)\<close>

text \<open>The question and the test as the test-taking branch builds them.\<close>

record taking_question =
  tq_id :: string
  tq_type :: question_type
  tq_question :: string
  tq_options :: "string list"

record taking_test =
  tt_id :: string
  tt_certificationName :: string
  tt_certificationUrl :: "string option"
  tt_generatedAt :: string
  tt_questionCount :: nat
  tt_questions :: "taking_question list"

definition taking_view :: "question \<Rightarrow> taking_question" where
  "taking_view q =
     \<lparr>tq_id = qid q, tq_type = qtype q, tq_question = question q, tq_options = options q\<rparr>"

definition testForTaking :: "practice_test \<Rightarrow> taking_test" where
  "testForTaking test =
     \<lparr>tt_id = test_id test,
      tt_certificationName = certificationName test,
      tt_certificationUrl = certificationUrl test,
      tt_generatedAt = generatedAt test,
      tt_questionCount = questionCount test,
      tt_questions = map taking_view (questions test)\<rparr>"

datatype payload =
    ErrorPayload string
  | TakingPayload taking_test
  | TestPayload document

text \<open>
  The \<^verbatim>\<open>catch\<close> block of the handler answers 500 with the message of the error.  Reading
  \<^verbatim>\<open>test.questions.map\<close> on a document without questions throws a \<^verbatim>\<open>TypeError\<close>, whose
  message is worded by the engine.
\<close>

definition handler_message :: "js_error \<Rightarrow> string" where
  "handler_message e = (case e of Error m \<Rightarrow> m | Thrown \<Rightarrow> ''Internal server error'')"

definition no_questions :: js_error where
  "no_questions = Error ''TypeError: test.questions is undefined''"

definition no_second_piece :: js_error where
  "no_second_piece = Error ''TypeError: undefined has no replace''"

text \<open>
  A response: the CORS preflight answer, a JSON body with its status, or the answer of a
  branch that is not detailed here (search, generation, submission, static files).
\<close>

datatype response = Preflight | JsonResponse nat payload | OtherBranch string

text \<open>\<^verbatim>\<open>!testId\<close>: the id is \<^verbatim>\<open>undefined\<close> or the empty string.\<close>

definition missing_id :: "string option \<Rightarrow> bool" where
  "missing_id t = (case t of None \<Rightarrow> True | Some s \<Rightarrow> s = [])"

definition fetch :: "storage \<Rightarrow> string \<Rightarrow> string \<Rightarrow> response" where
  "fetch st meth path =
     (if meth = ''OPTIONS'' then Preflight
      else if path = ''/api/search'' \<and> meth = ''GET'' then OtherBranch ''search''
      else if path = ''/api/generate-test'' \<and> meth = ''POST'' then OtherBranch ''generate-test''
      else if startsWith path ''/api/test/'' \<and> meth = ''GET'' then
        (let testId = js_index (split_str path ''/api/test/'') 1
         in if missing_id testId then JsonResponse 400 (ErrorPayload ''Test ID is required'')
            else (case getTest st (the testId) of
                    Inl err \<Rightarrow> JsonResponse 500 (ErrorPayload (handler_message err))
                  | Inr None \<Rightarrow> JsonResponse 404 (ErrorPayload ''Test not found'')
                  | Inr (Some (TestDoc test)) \<Rightarrow>
                      JsonResponse 200 (TakingPayload (testForTaking test))
                  | Inr (Some (SessionDoc session)) \<Rightarrow>
                      JsonResponse 500 (ErrorPayload (handler_message no_questions))))
      else if startsWith path ''/api/test/'' \<and> endsWith path ''/answers'' \<and> meth = ''GET'' then
        (case js_index (split_str path ''/api/test/'') 1 of
           None \<Rightarrow> JsonResponse 500 (ErrorPayload (handler_message no_second_piece))
         | Some piece \<Rightarrow>
             (let testId = replace_first ''/answers'' [] piece
              in if testId = [] then JsonResponse 400 (ErrorPayload ''Test ID is required'')
                 else (case getTest st testId of
                         Inl err \<Rightarrow> JsonResponse 500 (ErrorPayload (handler_message err))
                       | Inr None \<Rightarrow> JsonResponse 404 (ErrorPayload ''Test not found'')
                       | Inr (Some doc) \<Rightarrow> JsonResponse 200 (TestPayload doc))))
      else if startsWith path ''/api/test/'' \<and> endsWith path ''/submit'' \<and> meth = ''POST''
        then OtherBranch ''submit''
      else if path = ''/'' \<or> path = ''/index.html'' then OtherBranch ''frontend''
      else if startsWith path ''/src/'' then OtherBranch ''source file''
      else JsonResponse 404 (ErrorPayload ''Not found''))"

section \<open>The Question invariant of the specification\<close>

text \<open>
  The invariant as the specification words it: the correct answers are a non-empty subset of
  the options; a single-answer question has exactly one; a multi-answer question has two or
  three, and not all of the options.
\<close>

definition spec_question_invariant :: "question \<Rightarrow> bool" where
  "spec_question_invariant q =
     (correctAnswers q \<noteq> [] \<and>
      list_all (\<lambda>a. a \<in> Some ` set (options q)) (correctAnswers q) \<and>
      (case qtype q of
         MultipleChoice \<Rightarrow> card (set (correctAnswers q)) = 1
       | MultipleSelect \<Rightarrow>
           (card (set (correctAnswers q)) = 2 \<or> card (set (correctAnswers q)) = 3) \<and>
           set (correctAnswers q) \<noteq> Some ` set (options q)))"

section \<open>Concrete inputs\<close>

definition ex_question :: "string \<Rightarrow> question" where
  "ex_question i =
     \<lparr>qid = i, qtype = MultipleChoice, question = ''Which service stores blobs?'',
      options = [''A'', ''B'', ''C'', ''D''], correctAnswers = [Some ''A''],
      explanation = ''A is the storage service.''\<rparr>"

definition ex_test :: "question list \<Rightarrow> practice_test" where
  "ex_test qs =
     \<lparr>test_id = ''test-1700000000000-k3x9q'', certificationName = ''AZ-900'',
      certificationUrl = Some ''https://learn.microsoft.com/az-900'',
      generatedAt = ''2023-11-14T22:13:20.000Z'', questionCount = length qs, questions = qs\<rparr>"

text \<open>
  A question with two correct answers, and a test of three questions with a submission that
  answers the first, gives the answers of the second in another order and leaves out the
  third.
\<close>

definition ex_multi :: "string \<Rightarrow> question" where
  "ex_multi i =
     \<lparr>qid = i, qtype = MultipleSelect, question = ''Which services store data?'',
      options = [''A'', ''B'', ''C'', ''D''], correctAnswers = [Some ''A'', Some ''C''],
      explanation = ''A and C store data.''\<rparr>"

definition ex_test3 :: practice_test where
  "ex_test3 =
     ex_test [ex_question ''mc-1700000000000-0'', ex_multi ''ms-1700000000001-0'',
              ex_question ''mc-1700000000000-1'']"

definition ex_answers3 :: "string \<rightharpoonup> answer list" where
  "ex_answers3 =
     [''mc-1700000000000-0'' \<mapsto> [Some ''A''],
      ''ms-1700000000001-0'' \<mapsto> [Some ''C'', Some ''A'']]"

text \<open>A submission that selects the right option twice.\<close>

definition ex_answers_twice :: "string \<rightharpoonup> answer list" where
  "ex_answers_twice = [''mc-1700000000000-0'' \<mapsto> [Some ''A'', Some ''A'']]"

text \<open>A storage directory holding one generated test, and an empty one.\<close>

definition ex_storage0 :: storage where
  "ex_storage0 = \<lparr>storageDir = ''./data/tests'', files = Map.empty\<rparr>"

definition ex_storage :: storage where
  "ex_storage = saveTest ex_storage0 (ex_test [ex_question ''mc-1700000000000-0''])"

text \<open>
  A session for that test as the submission branch saves it, the history of the directory
  after the test and the session were saved, and the id that names the session file.
\<close>

definition ex_session :: test_session where
  "ex_session =
     \<lparr>s_testId = ''test-1700000000000-k3x9q'', s_answers = ex_answers_twice,
      startedAt = ''2023-11-14T22:13:20.500Z'',
      completedAt = Some ''2023-11-14T22:13:20.500Z'', s_score = Some (Num 0)\<rparr>"

definition ex_history :: "storage_op list" where
  "ex_history =
     [SaveTest (ex_test [ex_question ''mc-1700000000000-0'']),
      SaveSession ex_session 1700000000500]"

definition ex_session_id :: string where
  "ex_session_id = ''sessions/test-1700000000000-k3x9q-1700000000500''"

text \<open>
  Two completion replies and what \<^verbatim>\<open>JSON.parse\<close> makes of their arrays: a multi-answer record
  with a single correct index, in a reply with prose around the array, and a single-answer
  record whose index counts from one and so lies past the last of four options.
\<close>

definition ex_json_ms :: string where
  \<open>ex_json_ms = ''[{"question":"Which services store data? (Select all that apply)","options":["A","B","C","D"],"correctAnswers":[0],"explanation":"Only A stores data."}]''\<close>

definition ex_json_mc :: string where
  \<open>ex_json_mc = ''[{"question":"Which service stores blobs?","options":["A","B","C","D"],"correctAnswer":4,"explanation":"D is the storage service."}]''\<close>

definition ex_reply_ms :: string where
  "ex_reply_ms = ''Here are the questions: '' @ ex_json_ms @ '' Good luck!''"

definition ex_raw_ms :: raw_ms where
  "ex_raw_ms =
     \<lparr>ms_question = ''Which services store data? (Select all that apply)'',
      ms_options = [''A'', ''B'', ''C'', ''D''],
      ms_correctAnswers = [0], ms_explanation = ''Only A stores data.''\<rparr>"

definition ex_raw_mc :: raw_mc where
  "ex_raw_mc =
     \<lparr>mc_question = ''Which service stores blobs?'', mc_options = [''A'', ''B'', ''C'', ''D''],
      mc_correctAnswer = 4, mc_explanation = ''D is the storage service.''\<rparr>"

definition ex_env :: env where
  "ex_env =
     \<lparr>completion =
        (\<lambda>p. Inr (Some (case p_kind p of
                             MultipleChoice \<Rightarrow> ex_json_mc
                           | MultipleSelect \<Rightarrow> ex_reply_ms))),
      parse_mc =
        (\<lambda>s. if s = ex_json_mc then Inr [ex_raw_mc] else Inl (Error ''Unexpected token'')),
      parse_ms =
        (\<lambda>s. if s = ex_json_ms then Inr [ex_raw_ms] else Inl (Error ''Unexpected token'')),
      mc_now = (\<lambda>i. 1700000000000),
      ms_now = (\<lambda>i. 1700000000001),
      random = (\<lambda>k. 1 / 2),
      fetchContent = (\<lambda>u. Inr ''Azure Blob Storage stores unstructured data.''),
      test_now = 1700000000002,
      id_suffix = ''k3x9q'',
      iso_now = ''2023-11-14T22:13:20.002Z'',
      fetch_text = (\<lambda>u. Inr ''<html><h1>AZ-900</h1></html>''),
      extractStructuredContent =
        (\<lambda>h. Inr \<lparr>sc_title = ''AZ-900'', headings = [''AZ-900''], paragraphs = [],
                  list_items = []\<rparr>),
      analyzeContent =
        (\<lambda>c s. Inr \<lparr>keyTopics = [''Azure Blob Storage''], concepts = [], summary = c\<rparr>),
      extractSearchQueries = (\<lambda>a. Inr (keyTopics a)),
      web_search = (\<lambda>q. Inr [])\<rparr>"

text \<open>The same environment with every draw of \<^verbatim>\<open>Math.random()\<close> equal to \<open>0\<close>.\<close>

definition ex_env_swap :: env where
  "ex_env_swap = ex_env\<lparr>random := \<lambda>k. 0\<rparr>"

text \<open>The questions the generator makes of these two records.\<close>

definition ex_bad_ms :: question where
  "ex_bad_ms =
     \<lparr>qid = ''ms-1700000000001-0'', qtype = MultipleSelect,
      question = ''Which services store data? (Select all that apply)'',
      options = [''A'', ''B'', ''C'', ''D''], correctAnswers = [Some ''A''],
      explanation = ''Only A stores data.''\<rparr>"

definition ex_bad_mc :: question where
  "ex_bad_mc =
     \<lparr>qid = ''mc-1700000000000-0'', qtype = MultipleChoice,
      question = ''Which service stores blobs?'',
      options = [''A'', ''B'', ''C'', ''D''], correctAnswers = [None],
      explanation = ''D is the storage service.''\<rparr>"












text \<open>A test of forty questions and a submission that answers the first 23 correctly.\<close>

definition ex_ids :: "string list" where
  "ex_ids = map (\<lambda>i. ''mc-1700000000000-'' @ show_nat i) [0..<40]"

definition ex_test40 :: practice_test where
  "ex_test40 = ex_test (map ex_question ex_ids)"

definition ex_answers23 :: "string \<rightharpoonup> answer list" where
  "ex_answers23 = map_of (map (\<lambda>k. (k, [Some ''A''])) (take 23 ex_ids))"

section \<open>Properties of the scorer\<close>

lemma split_at_first_sep:
  "c \<notin> set a \<Longrightarrow> c \<notin> set b \<Longrightarrow> a @ c # r = b @ c # r' \<Longrightarrow> a = b \<and> r = r'"
proof (induction a arbitrary: b)
  case Nil
  then show ?case by (cases b) auto
next
  case (Cons x a)
  then show ?case by (cases b) auto
qed

lemma join_strings_Cons:
  "join_strings sep (x # xs) = (if xs = [] then x else x @ sep @ join_strings sep xs)"
  by (cases xs) simp_all

text \<open>
  Joining is injective on non-empty lists of strings that do not contain the separator, and
  only the empty list and the list of one empty string are joined to the empty text.
\<close>

lemma join_strings_inj:
  assumes "\<forall>s \<in> set xs. c \<notin> set s" and "\<forall>s \<in> set ys. c \<notin> set s"
    and "xs \<noteq> []" and "ys \<noteq> []"
    and "join_strings [c] xs = join_strings [c] ys"
  shows "xs = ys"
  using assms
proof (induction xs arbitrary: ys)
  case Nil
  then show ?case by simp
next
  case (Cons x xs)
  from Cons.prems(4) obtain y ys' where ys: "ys = y # ys'" by (cases ys) auto
  have x: "c \<notin> set x" and y: "c \<notin> set y"
    using Cons.prems(1,2) ys by auto
  show ?case
  proof (cases "xs = []")
    case True
    show ?thesis
    proof (cases "ys' = []")
      case True
      with \<open>xs = []\<close> Cons.prems(5) ys show ?thesis by simp
    next
      case False
      with \<open>xs = []\<close> Cons.prems(5) ys have "x = y @ c # join_strings [c] ys'"
        by (simp add: join_strings_Cons)
      with x show ?thesis by auto
    qed
  next
    case False
    show ?thesis
    proof (cases "ys' = []")
      case True
      with \<open>xs \<noteq> []\<close> Cons.prems(5) ys have "y = x @ c # join_strings [c] xs"
        by (simp add: join_strings_Cons)
      with y show ?thesis by auto
    next
      case ne: False
      with \<open>xs \<noteq> []\<close> Cons.prems(5) ys
      have "x @ c # join_strings [c] xs = y @ c # join_strings [c] ys'"
        by (simp add: join_strings_Cons)
      from split_at_first_sep[OF x y this]
      have "x = y" "join_strings [c] xs = join_strings [c] ys'" by auto
      moreover have "xs = ys'"
        using Cons.IH[of ys'] Cons.prems(1,2) ys \<open>xs \<noteq> []\<close> ne
          \<open>join_strings [c] xs = join_strings [c] ys'\<close>
        by auto
      ultimately show ?thesis using ys by simp
    qed
  qed
qed

lemma join_strings_empty:
  assumes "join_strings [c] ys = []"
  shows "ys = [] \<or> ys = [[]]"
proof (cases ys)
  case Nil
  then show ?thesis by simp
next
  case (Cons y ys')
  with assms show ?thesis by (cases ys') simp_all
qed

lemma insort_key_Some:
  "insort_key sort_text (Some y) (map Some zs) = map Some (insort y zs)"
  by (induction zs) (simp_all add: sort_text_def)

lemma sort_key_Some: "sort_key sort_text (map Some ys) = map Some (sort ys)"
  by (induction ys) (simp_all add: insort_key_Some)

lemma text_answers_Some:
  assumes "text_answers xs"
  shows "\<exists>ys. xs = map Some ys"
  using assms
proof (induction xs)
  case Nil
  then show ?case by simp
next
  case (Cons a xs)
  from Cons.prems have a: "a \<noteq> None" and xs: "text_answers xs"
    by (simp_all add: text_answers_def)
  from Cons.IH[OF xs] obtain ys where ys: "xs = map Some ys" by blast
  from a obtain s where s: "a = Some s" by (cases a) simp_all
  have "a # xs = map Some (s # ys)" using ys s by simp
  then show ?case by (rule exI)
qed

lemma comma_free_answers_Some:
  assumes "comma_free_answers xs"
  shows "\<exists>ys. xs = map Some ys \<and> list_all comma_free ys"
  using assms
proof (induction xs)
  case Nil
  then show ?case by simp
next
  case (Cons a xs)
  from Cons.prems have pa: "comma_free_answer a" and pxs: "comma_free_answers xs"
    by (simp_all add: comma_free_answers_def)
  from Cons.IH[OF pxs] obtain ys where ys: "xs = map Some ys" "list_all comma_free ys"
    by blast
  from pa obtain s where s: "a = Some s" "comma_free s"
    by (cases a) (simp_all add: comma_free_answer_def)
  have "a # xs = map Some (s # ys) \<and> list_all comma_free (s # ys)"
    using ys s by simp
  then show ?case by (rule exI)
qed

lemma comma_free_sep:
  assumes "list_all comma_free ys"
  shows "\<forall>s \<in> set ys. CHR '','' \<notin> set s"
  using assms by (simp add: list_all_iff comma_free_def)

lemma sorted_join_Some: "sorted_join (map Some ys) = join_strings '','' (sort ys)"
  by (simp add: sorted_join_def sort_key_Some join_text_def comp_def)

lemma sort_short:
  assumes "sort xs = [] \<or> sort xs = [a]"
  shows "xs = [] \<or> xs = [a]"
proof (cases xs)
  case Nil
  then show ?thesis by simp
next
  case (Cons x xs')
  show ?thesis
  proof (cases xs')
    case Nil
    with Cons assms show ?thesis by simp
  next
    case (Cons y ys)
    have "length (sort xs) = length xs" by simp
    with assms \<open>xs = x # xs'\<close> Cons show ?thesis by auto
  qed
qed

lemma sort_eq_iff_mset: "sort us = sort cs \<longleftrightarrow> mset us = mset cs"
proof
  assume "sort us = sort cs"
  then have "mset (sort us) = mset (sort cs)" by simp
  then show "mset us = mset cs" by simp
next
  assume "mset us = mset cs"
  then have "mset (sort cs) = mset us" by simp
  then show "sort us = sort cs" by (rule properties_for_sort) simp
qed

lemma image_mset_Some: "image_mset Some A = image_mset Some B \<longleftrightarrow> A = B"
  using inj_eq[OF multiset.inj_map[OF inj_Some], of A B] by simp

text \<open>
  Arrays of strings that are rearrangements of each other have the same sorted, joined text,
  whatever the strings are.
\<close>

lemma isCorrect_rearrangement:
  assumes "text_answers us" and "text_answers cs" and "mset us = mset cs"
  shows "isCorrect us cs"
proof -
  from text_answers_Some[OF assms(1)] obtain us' where us: "us = map Some us'" by blast
  from text_answers_Some[OF assms(2)] obtain cs' where cs: "cs = map Some cs'" by blast
  from assms(3) have "mset us' = mset cs'" by (simp add: us cs image_mset_Some)
  then have "sort us' = sort cs'" by (simp add: sort_eq_iff_mset)
  then show ?thesis by (simp add: isCorrect_def us cs sorted_join_Some)
qed

text \<open>
  On arrays of strings without a comma the comparison of the sorted, joined texts decides
  equality as multisets, the empty array against the single empty string apart.
\<close>

lemma isCorrect_iff_mset:
  assumes "comma_free_answers us" and "comma_free_answers cs" and "\<not> blank_pair us cs"
  shows "isCorrect us cs \<longleftrightarrow> mset us = mset cs"
proof -
  from comma_free_answers_Some[OF assms(1)] obtain us' where
    us: "us = map Some us'" "list_all comma_free us'" by blast
  from comma_free_answers_Some[OF assms(2)] obtain cs' where
    cs: "cs = map Some cs'" "list_all comma_free cs'" by blast
  have fu: "\<forall>s \<in> set (sort us'). CHR '','' \<notin> set s"
    using comma_free_sep[OF us(2)] by simp
  have fc: "\<forall>s \<in> set (sort cs'). CHR '','' \<notin> set s"
    using comma_free_sep[OF cs(2)] by simp
  have nb: "\<not> (us' = [] \<and> cs' = [[]])" "\<not> (us' = [[]] \<and> cs' = [])"
    using assms(3) by (auto simp: blank_pair_def us(1) cs(1))
  have "isCorrect us cs \<longleftrightarrow> join_strings '','' (sort us') = join_strings '','' (sort cs')"
    by (simp add: isCorrect_def us(1) cs(1) sorted_join_Some)
  also have "\<dots> \<longleftrightarrow> sort us' = sort cs'"
  proof
    assume eq: "join_strings '','' (sort us') = join_strings '','' (sort cs')"
    show "sort us' = sort cs'"
    proof (cases "us' = []")
      case True
      with eq have "join_strings '','' (sort cs') = []" by simp
      from sort_short[OF join_strings_empty[OF this]] nb(1) True show ?thesis by auto
    next
      case neu: False
      show ?thesis
      proof (cases "cs' = []")
        case True
        with eq have "join_strings '','' (sort us') = []" by simp
        from sort_short[OF join_strings_empty[OF this]] nb(2) True neu show ?thesis by auto
      next
        case False
        have "sort us' \<noteq> []" "sort cs' \<noteq> []"
          using neu False sort_short[of us' "[]"] sort_short[of cs' "[]"] by auto
        from join_strings_inj[OF fu fc this eq] show ?thesis .
      qed
    qed
  next
    assume "sort us' = sort cs'"
    then show "join_strings '','' (sort us') = join_strings '','' (sort cs')" by simp
  qed
  also have "\<dots> \<longleftrightarrow> mset us' = mset cs'" by (rule sort_eq_iff_mset)
  also have "\<dots> \<longleftrightarrow> mset us = mset cs" by (simp add: us(1) cs(1) image_mset_Some)
  finally show ?thesis .
qed

text \<open>The pass over a question, when it reads no inherited value and when it does.\<close>

lemma score_question_reads:
  assumes "\<not> reads_inherited answers q"
  shows "score_question answers q =
           Inr \<lparr>questionId = qid q,
                correct = isCorrect (case answers (qid q) of None \<Rightarrow> [] | Some xs \<Rightarrow> xs)
                            (correctAnswers q),
                userAnswers = (case answers (qid q) of None \<Rightarrow> [] | Some xs \<Rightarrow> xs),
                detail_correctAnswers = correctAnswers q\<rparr>"
  using assms
  by (auto simp: score_question_def lookup_answers_def get_property_def spread_def
      reads_inherited_def Let_def split: option.split)

lemma score_question_throws:
  assumes "reads_inherited answers q"
  shows "score_question answers q = Inl not_iterable"
  using assms
  by (simp add: score_question_def lookup_answers_def get_property_def spread_def
      reads_inherited_def)

lemma score_loop_eq:
  assumes "list_all (\<lambda>q. \<not> reads_inherited answers q) qs"
  shows "score_loop answers qs (c, ds) =
     Inr (c + length (filter (\<lambda>q. correct (projr (score_question answers q))) qs),
          ds @ map (\<lambda>q. projr (score_question answers q)) qs)"
  using assms
proof (induction qs arbitrary: c ds)
  case Nil
  then show ?case by simp
next
  case (Cons q qs)
  from Cons.prems have q: "\<not> reads_inherited answers q"
    and qs: "list_all (\<lambda>q. \<not> reads_inherited answers q) qs" by simp_all
  from score_question_reads[OF q] obtain d where d: "score_question answers q = Inr d"
    by blast
  show ?case by (simp add: d Cons.IH[OF qs])
qed

lemma score_loop_throws:
  assumes "list_ex (reads_inherited answers) qs"
  shows "score_loop answers qs (c, ds) = Inl not_iterable"
  using assms
proof (induction qs arbitrary: c ds)
  case Nil
  then show ?case by simp
next
  case (Cons q qs)
  show ?case
  proof (cases "reads_inherited answers q")
    case True
    then show ?thesis by (simp add: score_question_throws)
  next
    case False
    from score_question_reads[OF False] obtain d where d: "score_question answers q = Inr d"
      by blast
    from Cons.prems False have "list_ex (reads_inherited answers) qs" by simp
    from Cons.IH[OF this] show ?thesis by (simp add: d)
  qed
qed

lemma calculateScore_eq:
  assumes "list_all (\<lambda>q. \<not> reads_inherited answers q) (questions test)"
  shows "calculateScore test answers =
           Inr \<lparr>score = percent_score
                          (length (filter (\<lambda>q. correct (projr (score_question answers q)))
                             (questions test)))
                          (length (questions test)),
                total = length (questions test),
                result_correct =
                  length (filter (\<lambda>q. correct (projr (score_question answers q)))
                    (questions test)),
                incorrect =
                  int (length (questions test)) -
                  int (length (filter (\<lambda>q. correct (projr (score_question answers q)))
                         (questions test))),
                details = map (\<lambda>q. projr (score_question answers q)) (questions test)\<rparr>"
  by (simp add: calculateScore_def score_loop_eq[OF assms] Let_def)

text \<open>
  The scorer throws exactly when some question has the name of a property of
  \<^verbatim>\<open>Object.prototype\<close> as its id and no own entry in the submitted object; no generated id
  is such a name.
\<close>

lemma calculateScore_throws_iff:
  "calculateScore test answers = Inl not_iterable \<longleftrightarrow>
     list_ex (reads_inherited answers) (questions test)"
  "(\<exists>r. calculateScore test answers = Inr r) \<longleftrightarrow>
     list_all (\<lambda>q. \<not> reads_inherited answers q) (questions test)"
proof -
  have a: "calculateScore test answers = Inl not_iterable"
    if "list_ex (reads_inherited answers) (questions test)"
    using that by (simp add: calculateScore_def score_loop_throws)
  have b: "\<exists>r. calculateScore test answers = Inr r"
    if "list_all (\<lambda>q. \<not> reads_inherited answers q) (questions test)"
    using calculateScore_eq[OF that] by blast
  have c: "list_ex (reads_inherited answers) (questions test) \<or>
           list_all (\<lambda>q. \<not> reads_inherited answers q) (questions test)"
    by (auto simp: list_ex_iff list_all_iff)
  show "calculateScore test answers = Inl not_iterable \<longleftrightarrow>
     list_ex (reads_inherited answers) (questions test)"
    using a b c by auto
  show "(\<exists>r. calculateScore test answers = Inr r) \<longleftrightarrow>
     list_all (\<lambda>q. \<not> reads_inherited answers q) (questions test)"
    using a b c by auto
qed

lemma generated_id_not_inherited:
  assumes "startsWith k ''mc-'' \<or> startsWith k ''ms-''"
  shows "k \<notin> set object_prototype_names"
  using assms by (auto simp: object_prototype_names_def startsWith_def)

lemma calculateScore_inherited_name:
  "calculateScore (ex_test [ex_question ''constructor'']) Map.empty = Inl not_iterable"
  by (simp add: calculateScore_def ex_test_def ex_question_def score_question_def
      lookup_answers_def get_property_def spread_def object_prototype_names_def)

lemma percent_score_2_3: "percent_score (Suc (Suc 0)) (Suc (Suc (Suc 0))) = Num 67"
  by code_simp

lemma percent_score_0_1: "percent_score 0 (Suc 0) = Num 0"
  by code_simp

lemma sorted_join_CA: "sorted_join [Some ''C'', Some ''A''] = ''A,C''"
  by code_simp

lemma sorted_join_AC: "sorted_join [Some ''A'', Some ''C''] = ''A,C''"
  by code_simp

lemma sorted_join_A: "sorted_join [Some ''A''] = ''A''"
  by (simp add: sorted_join_def join_text_def)

lemma sorted_join_AA: "sorted_join [Some ''A'', Some ''A''] = ''A,A''"
  by (simp add: sorted_join_def join_text_def sort_text_def)

lemma sorted_join_Nil: "sorted_join [] = []"
  by (simp add: sorted_join_def)

text \<open>
  Claim C1, as the code has it.  Take a stored test none of whose question ids is read from
  \<^verbatim>\<open>Object.prototype\<close> (no generated id is) and any submitted answers.  The scorer returns a
  result with one detail for each question, in order.  For the question at position \<open>i\<close> the
  detail holds the question's id, its correct answers and the submitted answers for the id, a
  missing id as the empty array.  When both arrays hold strings only and the submitted
  answers are a rearrangement of the correct answers, the question is marked correct.  When
  moreover no answer contains a comma, and the pair is not the empty array against the single
  empty string, the question is marked correct if and only if the submitted answers are a
  rearrangement of the correct answers (equal as multisets: the order does not matter, a
  subset earns nothing, a repeated entry counts), hence, when neither array repeats an entry,
  if and only if the two are equal as sets.
\<close>

theorem scorer_marks_permutations_correct:
  fixes test :: practice_test and answers :: "string \<rightharpoonup> answer list" and i :: nat
  defines "q \<equiv> questions test ! i"
  defines "us \<equiv> (case answers (qid q) of None \<Rightarrow> [] | Some xs \<Rightarrow> xs)"
  defines "cs \<equiv> correctAnswers q"
  assumes "i < length (questions test)"
    and "list_all (\<lambda>q. \<not> reads_inherited answers q) (questions test)"
  shows "\<exists>r. calculateScore test answers = Inr r \<and>
           length (details r) = length (questions test) \<and>
           questionId (details r ! i) = qid q \<and>
           userAnswers (details r ! i) = us \<and>
           detail_correctAnswers (details r ! i) = cs \<and>
           (text_answers us \<and> text_answers cs \<and> mset us = mset cs \<longrightarrow>
              correct (details r ! i)) \<and>
           (comma_free_answers us \<and> comma_free_answers cs \<and> \<not> blank_pair us cs \<longrightarrow>
              (correct (details r ! i) \<longleftrightarrow> mset us = mset cs)) \<and>
           (comma_free_answers us \<and> comma_free_answers cs \<and> \<not> blank_pair us cs \<and>
            distinct us \<and> distinct cs \<longrightarrow>
              (correct (details r ! i) \<longleftrightarrow> set us = set cs))"
proof -
  define r where "r = projr (calculateScore test answers)"
  have r: "calculateScore test answers = Inr r"
    using calculateScore_eq[OF assms(5)] by (simp add: r_def)
  have ds: "details r = map (\<lambda>q. projr (score_question answers q)) (questions test)"
    using calculateScore_eq[OF assms(5)] by (simp add: r_def)
  have nq: "\<not> reads_inherited answers q"
    using assms(4,5) by (simp add: q_def list_all_length)
  have d: "details r ! i =
             \<lparr>questionId = qid q, correct = isCorrect us cs, userAnswers = us,
              detail_correctAnswers = cs\<rparr>"
    using assms(4) score_question_reads[OF nq] by (simp add: ds q_def us_def cs_def)
  have 1: "correct (details r ! i)" if "text_answers us" "text_answers cs" "mset us = mset cs"
    using isCorrect_rearrangement[OF that] by (simp add: d)
  have 2: "correct (details r ! i) \<longleftrightarrow> mset us = mset cs"
    if "comma_free_answers us" "comma_free_answers cs" "\<not> blank_pair us cs"
    using isCorrect_iff_mset[OF that] by (simp add: d)
  have 3: "mset us = mset cs \<longleftrightarrow> set us = set cs" if "distinct us" "distinct cs"
    using that by (simp add: set_eq_iff_mset_eq_distinct)
  have "length (details r) = length (questions test)" by (simp add: ds)
  moreover have "questionId (details r ! i) = qid q" by (simp add: d)
  moreover have "userAnswers (details r ! i) = us" by (simp add: d)
  moreover have "detail_correctAnswers (details r ! i) = cs" by (simp add: d)
  ultimately show ?thesis using r 1 2 3 by blast
qed

text \<open>
  The theorem at a test of three questions: the first answered with its one correct option,
  the second, with correct answers \<^verbatim>\<open>["A", "C"]\<close>, answered \<^verbatim>\<open>["C", "A"]\<close>, the third missing
  from the submission.
\<close>

theorem scorer_marks_permutations_correct_witness:
  "1 < length (questions ex_test3) \<and>
   list_all (\<lambda>q. \<not> reads_inherited ex_answers3 q) (questions ex_test3) \<and>
   text_answers [Some ''C'', Some ''A''] \<and> text_answers [Some ''A'', Some ''C''] \<and>
   comma_free_answers [Some ''C'', Some ''A''] \<and> comma_free_answers [Some ''A'', Some ''C''] \<and>
   \<not> blank_pair [Some ''C'', Some ''A''] [Some ''A'', Some ''C''] \<and>
   distinct [Some ''C'', Some ''A''] \<and> distinct [Some ''A'', Some ''C''] \<and>
   mset [Some ''C'', Some ''A''] = mset [Some ''A'', Some ''C''] \<and>
   calculateScore ex_test3 ex_answers3 =
     Inr \<lparr>score = Num 67, total = 3, result_correct = 2, incorrect = 1,
          details =
            [\<lparr>questionId = ''mc-1700000000000-0'', correct = True,
              userAnswers = [Some ''A''], detail_correctAnswers = [Some ''A'']\<rparr>,
             \<lparr>questionId = ''ms-1700000000001-0'', correct = True,
              userAnswers = [Some ''C'', Some ''A''],
              detail_correctAnswers = [Some ''A'', Some ''C'']\<rparr>,
             \<lparr>questionId = ''mc-1700000000000-1'', correct = False,
              userAnswers = [], detail_correctAnswers = [Some ''A'']\<rparr>]\<rparr>"
proof -
  have h1: "1 < length (questions ex_test3)"
    by (simp add: ex_test3_def ex_test_def)
  have h2: "list_all (\<lambda>q. \<not> reads_inherited ex_answers3 q) (questions ex_test3)"
    by (simp add: ex_test3_def ex_test_def ex_question_def ex_multi_def reads_inherited_def
        ex_answers3_def object_prototype_names_def)
  have us: "(case ex_answers3 (qid (questions ex_test3 ! 1)) of None \<Rightarrow> [] | Some xs \<Rightarrow> xs) =
              [Some ''C'', Some ''A'']"
    by (simp add: ex_test3_def ex_test_def ex_multi_def ex_answers3_def)
  have cs: "correctAnswers (questions ex_test3 ! 1) = [Some ''A'', Some ''C'']"
    by (simp add: ex_test3_def ex_test_def ex_multi_def)
  have h3: "text_answers [Some ''C'', Some ''A'']" "text_answers [Some ''A'', Some ''C'']"
    by (simp_all add: text_answers_def)
  have h4: "comma_free_answers [Some ''C'', Some ''A'']"
    "comma_free_answers [Some ''A'', Some ''C'']"
    by (simp_all add: comma_free_answers_def comma_free_answer_def comma_free_def)
  have h5: "\<not> blank_pair [Some ''C'', Some ''A''] [Some ''A'', Some ''C'']"
    by (simp add: blank_pair_def)
  have h6: "distinct [Some ''C'', Some ''A'']" "distinct [Some ''A'', Some ''C'']"
    by simp_all
  have h7: "mset [Some ''C'', Some ''A''] = mset [Some ''A'', Some ''C'']"
    by simp
  from scorer_marks_permutations_correct[where i = 1 and test = ex_test3
      and answers = ex_answers3, OF h1 h2]
  obtain r where r: "calculateScore ex_test3 ex_answers3 = Inr r"
    and c: "correct (details r ! 1)"
    unfolding us cs using h4 h5 h7 by blast
  have ev: "calculateScore ex_test3 ex_answers3 =
     Inr \<lparr>score = Num 67, total = 3, result_correct = 2, incorrect = 1,
          details =
            [\<lparr>questionId = ''mc-1700000000000-0'', correct = True,
              userAnswers = [Some ''A''], detail_correctAnswers = [Some ''A'']\<rparr>,
             \<lparr>questionId = ''ms-1700000000001-0'', correct = True,
              userAnswers = [Some ''C'', Some ''A''],
              detail_correctAnswers = [Some ''A'', Some ''C'']\<rparr>,
             \<lparr>questionId = ''mc-1700000000000-1'', correct = False,
              userAnswers = [], detail_correctAnswers = [Some ''A'']\<rparr>]\<rparr>"
    by (simp add: calculateScore_def ex_test3_def ex_test_def ex_question_def ex_multi_def
        ex_answers3_def score_question_def lookup_answers_def get_property_def spread_def
        object_prototype_names_def isCorrect_def sorted_join_CA sorted_join_AC sorted_join_A
        sorted_join_Nil percent_score_2_3 Let_def)
  from r c ev h1 h2 h3 h4 h5 h6 h7 show ?thesis
    by simp
qed

text \<open>
  Claim C1 as stated fails: a submission that names the single correct option twice equals
  the correct answers as a set, and the scorer marks the question incorrect.
\<close>

theorem scorer_repeated_answer_counterexample:
  "set [Some ''A'', Some ''A''] = set [Some ''A''] \<and>
   calculateScore (ex_test [ex_question ''mc-1700000000000-0'']) ex_answers_twice =
     Inr \<lparr>score = Num 0, total = 1, result_correct = 0, incorrect = 1,
          details =
            [\<lparr>questionId = ''mc-1700000000000-0'', correct = False,
              userAnswers = [Some ''A'', Some ''A''],
              detail_correctAnswers = [Some ''A'']\<rparr>]\<rparr>"
  by (simp add: calculateScore_def ex_test_def ex_question_def ex_answers_twice_def
      score_question_def lookup_answers_def get_property_def spread_def isCorrect_def
      sorted_join_A sorted_join_AA percent_score_0_1 Let_def)

text \<open>
  The joined texts can collide: two selected options read like one option that contains a
  comma, a single empty string reads like no answer at all, and so does a single \<^verbatim>\<open>null\<close>.
\<close>

lemma scorer_joined_text_collisions:
  "isCorrect [Some ''x'', Some ''y''] [Some ''x,y'']" and "isCorrect [Some []] []"
  and "isCorrect [] [None]"
  by (simp_all add: isCorrect_def sorted_join_def join_text_def sort_text_def)

text \<open>
  Claim C5 fails on the code in two ways.  A test without questions (the completion service
  answered with an empty array) is scored \<^verbatim>\<open>NaN\<close>, which is no integer between 0 and 100.
  And on a test of forty questions with 23 correct answers the binary64 quotient times 100 is
  just below 57.5, so the score is 57, where rounding 57.5 half up gives 58.
\<close>

theorem calculateScore_score_defects:
  "calculateScore (ex_test []) Map.empty =
     Inr \<lparr>score = NaN, total = 0, result_correct = 0, incorrect = 0, details = []\<rparr> \<and>
   map_sum id total (calculateScore ex_test40 ex_answers23) = Inr 40 \<and>
   map_sum id result_correct (calculateScore ex_test40 ex_answers23) = Inr 23 \<and>
   map_sum id score (calculateScore ex_test40 ex_answers23) = Inr (Num 57) \<and>
   \<lfloor>(23 :: rat) / 40 * 100 + 1 / 2\<rfloor> = 58"
proof -
  have "calculateScore (ex_test []) Map.empty =
     Inr \<lparr>score = NaN, total = 0, result_correct = 0, incorrect = 0, details = []\<rparr>"
    by (simp add: calculateScore_def ex_test_def percent_score_def)
  moreover have "map_sum id total (calculateScore ex_test40 ex_answers23) = Inr 40 \<and>
      map_sum id result_correct (calculateScore ex_test40 ex_answers23) = Inr 23 \<and>
      map_sum id score (calculateScore ex_test40 ex_answers23) = Inr (Num 57)"
    by code_simp
  moreover have "\<lfloor>(23 :: rat) / 40 * 100 + 1 / 2\<rfloor> = 58"
    by simp
  ultimately show ?thesis by blast
qed

section \<open>Properties of paths\<close>

lemma split_from_no_sep:
  assumes "c \<notin> set t"
  shows "split_from (c # sep) acc t = [rev acc @ t]"
  using assms by (induction t arbitrary: acc) (auto simp: startsWith_def)

lemma split_from_append:
  "split_from [c] acc (a @ c # b) = split_from [c] acc a @ split_from [c] [] b"
  by (induction a arbitrary: acc) (simp_all add: startsWith_def)

lemma split_str_slash_free:
  assumes "slash_free name"
  shows "split_str name ''/'' = [name]"
  using split_from_no_sep[of "CHR ''/''" name "[]" "[]"] assms
  by (simp add: split_str_def slash_free_def)

lemma split_str_append:
  "split_str (a @ ''/'' @ b) ''/'' = split_str a ''/'' @ split_str b ''/''"
  using split_from_append[of "CHR ''/''" "[]" a b] by (simp add: split_str_def)

lemma split_from_slash_free:
  assumes "slash_free acc"
  shows "list_all slash_free (split_from ''/'' acc s)"
  using assms
proof (induction s arbitrary: acc)
  case Nil
  then show ?case by (simp add: slash_free_def)
next
  case (Cons x s)
  have e: "slash_free []" by (simp add: slash_free_def)
  show ?case
  proof (cases "x = CHR ''/''")
    case True
    with Cons.IH[OF e] Cons.prems show ?thesis
      by (simp add: startsWith_def slash_free_def)
  next
    case False
    with Cons.prems have "slash_free (x # acc)" by (simp add: slash_free_def)
    from Cons.IH[OF this] False show ?thesis by (simp add: startsWith_def)
  qed
qed

lemma split_str_segments: "list_all slash_free (split_str p ''/'')"
  unfolding split_str_def by (rule split_from_slash_free) (simp add: slash_free_def)

lemma join_strings_snoc:
  "join_strings sep (xs @ [x]) = (if xs = [] then x else join_strings sep xs @ sep @ x)"
  by (induction sep xs rule: join_strings.induct) simp_all

lemma split_str_join:
  assumes "xs \<noteq> []" and "list_all slash_free xs"
  shows "split_str (join_strings ''/'' xs) ''/'' = xs"
  using assms
proof (induction "''/''" xs rule: join_strings.induct)
  case 1
  then show ?case by simp
next
  case (2 x)
  then show ?case by (simp add: split_str_slash_free)
next
  case (3 x y ys)
  from "3.prems" have x: "slash_free x" and r: "list_all slash_free (y # ys)" by simp_all
  have "split_str (x @ ''/'' @ join_strings ''/'' (y # ys)) ''/'' =
          split_str x ''/'' @ split_str (join_strings ''/'' (y # ys)) ''/''"
    by (rule split_str_append)
  also have "\<dots> = [x] @ (y # ys)"
    using "3.hyps" r by (simp add: split_str_slash_free[OF x])
  finally show ?case by simp
qed

lemma plain_segment_slash_free: "plain_segment s \<Longrightarrow> slash_free s"
  by (simp add: plain_segment_def)

lemma plain_segments_slash_free:
  "list_all plain_segment rest \<Longrightarrow> list_all slash_free rest"
  by (induction rest) (simp_all add: plain_segment_def)

lemma dots_slash_free: "list_all slash_free (replicate m ''..'')"
  by (induction m) (simp_all add: slash_free_def)

lemma plain_segments_nonempty:
  "list_all plain_segment rest \<Longrightarrow> list_all (\<lambda>s. s \<noteq> [] \<and> slash_free s) rest"
  by (induction rest) (simp_all add: plain_segment_def)

lemma dots_nonempty: "list_all (\<lambda>s. s \<noteq> [] \<and> slash_free s) (replicate m ''..'')"
  by (induction m) (simp_all add: slash_free_def)

lemma normalize_step_plain:
  "plain_segment s \<Longrightarrow> normalize_step a res s = s # res"
  by (simp add: normalize_step_def plain_segment_def)

lemma normalize_step_dots:
  "normalize_step True (replicate k ''..'') ''..'' = replicate (Suc k) ''..''"
  by (cases k) (simp_all add: normalize_step_def)

lemma foldl_step_dots:
  "foldl (normalize_step True) (replicate k ''..'') (replicate m ''..'') =
     replicate (k + m) ''..''"
proof (induction m arbitrary: k)
  case 0
  then show ?case by simp
next
  case (Suc m)
  have "foldl (normalize_step True) (replicate k ''..'') (replicate (Suc m) ''..'') =
          foldl (normalize_step True) (replicate (Suc k) ''..'') (replicate m ''..'')"
    by (simp only: replicate_Suc foldl_Cons normalize_step_dots)
  also have "\<dots> = replicate (Suc k + m) ''..''" by (rule Suc.IH)
  finally show ?case by simp
qed

lemma foldl_step_plain:
  "list_all plain_segment rest \<Longrightarrow> foldl (normalize_step a) acc (rev rest) = rest @ acc"
  by (induction rest) (simp_all add: normalize_step_plain)

text \<open>
  The result of \<^verbatim>\<open>normalizeString\<close> is a run of \<^verbatim>\<open>..\<close> (none in an absolute path) followed
  by plain segments, and normalizing it again changes nothing.
\<close>

lemma normalize_step_form:
  assumes "list_all plain_segment rest" and "a \<or> m = 0" and "slash_free seg"
  shows "\<exists>m' rest'. normalize_step a (rest @ replicate m ''..'') seg = rest' @ replicate m' ''..'' \<and>
           list_all plain_segment rest' \<and> (a \<or> m' = 0)"
proof -
  consider (skip) "seg = [] \<or> seg = ''.''" | (up) "seg = ''..''" | (plain) "plain_segment seg"
    using assms(3) by (auto simp: plain_segment_def)
  then show ?thesis
  proof cases
    case skip
    then have "normalize_step a (rest @ replicate m ''..'') seg = rest @ replicate m ''..''"
      by (auto simp: normalize_step_def)
    with assms(1,2) show ?thesis by blast
  next
    case up
    show ?thesis
    proof (cases rest)
      case Nil
      show ?thesis
      proof (cases a)
        case True
        have "normalize_step a (rest @ replicate m ''..'') seg = [] @ replicate (Suc m) ''..''"
          using normalize_step_dots[of m] up Nil True by simp
        moreover have "list_all plain_segment []" by simp
        ultimately show ?thesis using True by blast
      next
        case False
        with assms(2) have "m = 0" by simp
        then have "normalize_step a (rest @ replicate m ''..'') seg = [] @ replicate 0 ''..''"
          using up Nil False by (simp add: normalize_step_def)
        moreover have "list_all plain_segment []" by simp
        ultimately show ?thesis by blast
      qed
    next
      case (Cons r rest')
      with assms(1) have r: "plain_segment r" and p: "list_all plain_segment rest'" by simp_all
      from r have "r \<noteq> ''..''" by (simp add: plain_segment_def)
      then have "normalize_step a (rest @ replicate m ''..'') seg = rest' @ replicate m ''..''"
        using up Cons by (simp add: normalize_step_def)
      with p assms(2) show ?thesis by blast
    qed
  next
    case plain
    then have "normalize_step a (rest @ replicate m ''..'') seg =
                 (seg # rest) @ replicate m ''..''"
      by (simp add: normalize_step_plain)
    moreover have "list_all plain_segment (seg # rest)" using plain assms(1) by simp
    ultimately show ?thesis using assms(2) by blast
  qed
qed

lemma foldl_step_form:
  assumes "list_all slash_free segs" and "list_all plain_segment rest" and "a \<or> m = 0"
  shows "\<exists>m' rest'. foldl (normalize_step a) (rest @ replicate m ''..'') segs =
                      rest' @ replicate m' ''..'' \<and>
           list_all plain_segment rest' \<and> (a \<or> m' = 0)"
  using assms
proof (induction segs arbitrary: rest m)
  case Nil
  then show ?case by auto
next
  case (Cons seg segs)
  from Cons.prems(1) have s: "slash_free seg" and ss: "list_all slash_free segs" by simp_all
  from normalize_step_form[OF Cons.prems(2,3) s] obtain m' rest' where
    st: "normalize_step a (rest @ replicate m ''..'') seg = rest' @ replicate m' ''..''"
    and p: "list_all plain_segment rest'" and a: "a \<or> m' = 0" by blast
  from Cons.IH[OF ss p a] show ?case by (simp add: st)
qed

lemma dir_segments_form:
  "\<exists>m rest. dir_segments d = rest @ replicate m ''..'' \<and> list_all plain_segment rest \<and>
     (\<not> startsWith d ''/'' \<or> m = 0)"
  using foldl_step_form[OF split_str_segments, of "[]" "\<not> startsWith d ''/''" 0 d]
  by (simp add: dir_segments_def)

lemma renormalize:
  assumes "list_all plain_segment rest" and "a \<or> m = 0" and "rest \<noteq> [] \<or> m \<noteq> 0"
  shows "foldl (normalize_step a) []
           (split_str (join_strings ''/'' (rev (rest @ replicate m ''..''))) ''/'') =
         rest @ replicate m ''..''"
proof -
  have sf: "list_all slash_free (rev (rest @ replicate m ''..''))"
    using plain_segments_slash_free[OF assms(1)] dots_slash_free[of m] by simp
  have ne: "rev (rest @ replicate m ''..'') \<noteq> []"
    using assms(3) by auto
  have dots: "foldl (normalize_step a) [] (replicate m ''..'') = replicate m ''..''"
  proof (cases "m = 0")
    case True
    then show ?thesis by simp
  next
    case False
    with assms(2) have "a" by simp
    with foldl_step_dots[of 0 m] show ?thesis by simp
  qed
  have "split_str (join_strings ''/'' (rev (rest @ replicate m ''..''))) ''/'' =
          rev (rest @ replicate m ''..'')"
    by (rule split_str_join[OF ne sf])
  then have "foldl (normalize_step a) []
          (split_str (join_strings ''/'' (rev (rest @ replicate m ''..''))) ''/'') =
        foldl (normalize_step a) [] (replicate m ''..'' @ rev rest)"
    by simp
  also have "\<dots> = foldl (normalize_step a) (replicate m ''..'') (rev rest)"
    by (simp only: foldl_append dots)
  also have "\<dots> = rest @ replicate m ''..''"
    by (rule foldl_step_plain[OF assms(1)])
  finally show ?thesis .
qed

text \<open>\<^verbatim>\<open>join(d, name)\<close> for a plain segment \<open>name\<close>: the directory part, then the name.\<close>

lemma not_startsWith_plain: "plain_segment s \<Longrightarrow> \<not> startsWith (s @ t) ''/''"
  by (cases s) (auto simp: plain_segment_def slash_free_def startsWith_def)

lemma last_plain: "plain_segment s \<Longrightarrow> last (t @ s) \<noteq> CHR ''/''"
proof -
  assume p: "plain_segment s"
  then have ne: "s \<noteq> []" and nf: "CHR ''/'' \<notin> set s"
    by (simp_all add: plain_segment_def slash_free_def)
  from ne have "last s \<in> set s" by simp
  with nf have "last s \<noteq> CHR ''/''" by auto
  with ne show ?thesis by simp
qed

lemma path_join_plain:
  assumes "plain_segment name"
  shows "path_join d name = dir_prefix d @ name"
proof -
  have ne: "name \<noteq> []" using assms by (simp add: plain_segment_def)
  have sf: "slash_free name" using assms by (simp add: plain_segment_def)
  define K where "K = dir_segments d"
  define joined where "joined = (if d = [] then name else d @ ''/'' @ name)"
  have j: "path_join d name = normalize joined" and jne: "joined \<noteq> []"
    using ne by (simp_all add: path_join_def joined_def Let_def)
  have hd: "(hd joined = CHR ''/'') = startsWith d ''/''"
  proof (cases d)
    case Nil
    with not_startsWith_plain[OF assms, of "[]"] ne show ?thesis
      by (cases name) (simp_all add: joined_def startsWith_def)
  next
    case (Cons x xs)
    then show ?thesis by (simp add: joined_def startsWith_def)
  qed
  have lst: "last joined \<noteq> CHR ''/''"
    using last_plain[OF assms, of "d @ ''/''"] last_plain[OF assms, of "[]"]
    by (simp add: joined_def)
  have segs: "split_str joined ''/'' = (if d = [] then [] else split_str d ''/'') @ [name]"
    using split_str_append[of d name] by (simp add: joined_def split_str_slash_free[OF sf])
  have empty: "foldl (normalize_step a) [] (split_str [] ''/'') = []" for a
    by (simp add: split_str_def normalize_step_def)
  have K0: "d = [] \<Longrightarrow> K = []"
    by (simp add: K_def dir_segments_def empty)
  have "foldl (normalize_step (\<not> startsWith d ''/'')) [] (split_str joined ''/'') = name # K"
  proof (cases "d = []")
    case True
    with K0 show ?thesis by (simp add: segs normalize_step_plain[OF assms])
  next
    case False
    then show ?thesis
      by (simp add: segs K_def dir_segments_def normalize_step_plain[OF assms])
  qed
  then have ns: "normalizeString joined (\<not> startsWith d ''/'') =
                   (if K = [] then name else join_strings ''/'' (rev K) @ ''/'' @ name)"
    by (simp add: normalizeString_def join_strings_snoc)
  have nne: "normalizeString joined (\<not> startsWith d ''/'') \<noteq> []"
    using ne by (simp add: ns)
  have "normalize joined =
          (if startsWith d ''/'' then ''/'' else []) @
          normalizeString joined (\<not> startsWith d ''/'')"
    using jne nne lst by (simp add: normalize_def Let_def hd)
  then show ?thesis
    by (simp add: j ns dir_prefix_def K_def)
qed

lemma join_not_absolute:
  assumes "xs \<noteq> []" and "list_all (\<lambda>s. s \<noteq> [] \<and> slash_free s) xs"
  shows "\<not> startsWith (join_strings ''/'' xs) ''/''"
proof -
  from assms(1) obtain x rest where xs: "xs = x # rest" by (cases xs) auto
  with assms(2) have x: "x \<noteq> []" "slash_free x" by simp_all
  define t where "t = (if rest = [] then [] else ''/'' @ join_strings ''/'' rest)"
  have t: "join_strings ''/'' xs = x @ t"
    by (simp add: xs join_strings_Cons t_def)
  from x show ?thesis
    unfolding t by (cases x) (auto simp: startsWith_def slash_free_def)
qed

lemma plain_sessions: "plain_segment ''sessions''"
  by (simp add: plain_segment_def slash_free_def)

lemma dir_sessions:
  "dir_prefix (dir_prefix d @ ''sessions'') = dir_prefix d @ ''sessions/''"
proof -
  define a where "a = (\<not> startsWith d ''/'')"
  define K where "K = dir_segments d"
  define sd where "sd = dir_prefix d @ ''sessions''"
  from dir_segments_form[of d] obtain m rest where
    K: "K = rest @ replicate m ''..''" and p: "list_all plain_segment rest" and am: "a \<or> m = 0"
    by (auto simp: K_def a_def)
  define body where "body = join_strings ''/'' (rev ((''sessions'' # rest) @ replicate m ''..''))"
  have body: "body = (if K = [] then [] else join_strings ''/'' (rev K) @ ''/'') @ ''sessions''"
    using join_strings_snoc[of "''/''" "rev K" "''sessions''"] by (simp add: body_def K)
  have sd: "sd = (if a then [] else ''/'') @ body"
    by (simp add: sd_def dir_prefix_def body a_def K_def)
  have p': "list_all plain_segment (''sessions'' # rest)"
    using p plain_sessions by simp
  have re: "foldl (normalize_step a) [] (split_str body ''/'') =
              (''sessions'' # rest) @ replicate m ''..''"
    unfolding body_def by (rule renormalize[OF p' am]) simp
  have first: "\<not> startsWith body ''/''"
    unfolding body_def
  proof (rule join_not_absolute)
    show "rev ((''sessions'' # rest) @ replicate m ''..'') \<noteq> []" by simp
    show "list_all (\<lambda>s. s \<noteq> [] \<and> slash_free s)
            (rev ((''sessions'' # rest) @ replicate m ''..''))"
      using plain_segments_nonempty[OF p'] dots_nonempty[of m] by simp
  qed
  have st: "startsWith sd ''/'' \<longleftrightarrow> \<not> a"
    using first by (auto simp: sd startsWith_def)
  have "split_str sd ''/'' = (if a then [] else [[]]) @ split_str body ''/''"
    using split_str_append[of "[]" body] by (simp add: sd split_str_def)
  then have "dir_segments sd = (''sessions'' # rest) @ replicate m ''..''"
    using re by (cases a) (simp_all add: dir_segments_def st normalize_step_def)
  then have "dir_prefix sd = (if a then [] else ''/'') @ body @ ''/''"
    by (simp add: dir_prefix_def st body_def)
  then show ?thesis
    by (simp add: sd_def[symmetric]) (simp add: sd_def dir_prefix_def body a_def K_def)
qed

lemma path_join_sessions:
  assumes "plain_segment f"
  shows "path_join (path_join d ''sessions'') f = dir_prefix d @ ''sessions/'' @ f"
  by (simp add: path_join_plain[OF plain_sessions] path_join_plain[OF assms] dir_sessions)


section \<open>Properties of the storage and of the request handler\<close>

lemma show_nat_digits: "set (show_nat n) \<subseteq> set ''0123456789''"
proof (induction n rule: show_nat.induct)
  case (1 n)
  have d: "digit_char k \<in> set ''0123456789''" if "k < 10" for k
    unfolding digit_char_def using that by (intro nth_mem) simp
  show ?case
  proof (cases "n < 10")
    case True
    then show ?thesis using d[of n] by (subst show_nat.simps) simp
  next
    case False
    then show ?thesis using "1" d[of "n mod 10"] by (subst show_nat.simps) simp
  qed
qed

lemma show_nat_slash_free: "slash_free (show_nat n)"
proof -
  have "CHR ''/'' \<notin> set ''0123456789''" by simp
  with show_nat_digits[of n] show ?thesis unfolding slash_free_def by blast
qed

lemma long_plain:
  assumes "slash_free s" and "2 < length s"
  shows "plain_segment s"
proof -
  have "s \<noteq> []" using assms(2) by auto
  moreover have "s \<noteq> ''.''" using assms(2) by auto
  moreover have "s \<noteq> ''..''" using assms(2) by auto
  ultimately show ?thesis using assms(1) by (simp add: plain_segment_def)
qed

lemma test_file_plain:
  assumes "slash_free k"
  shows "plain_segment (k @ ''.json'')"
proof (rule long_plain)
  show "slash_free (k @ ''.json'')" using assms by (simp add: slash_free_def)
  show "2 < length (k @ ''.json'')" by simp
qed

lemma session_file_plain:
  assumes "slash_free k"
  shows "plain_segment (k @ ''-'' @ show_nat now @ ''.json'')"
proof (rule long_plain)
  show "slash_free (k @ ''-'' @ show_nat now @ ''.json'')"
    using assms show_nat_slash_free[of now] by (simp add: slash_free_def)
  show "2 < length (k @ ''-'' @ show_nat now @ ''.json'')" by simp
qed

text \<open>The file of a test and the file of a session, for an id without a slash.\<close>

lemma test_path_plain:
  assumes "slash_free k"
  shows "test_path st k = dir_prefix (storageDir st) @ k @ ''.json''"
  by (simp add: test_path_def path_join_plain[OF test_file_plain[OF assms]])

lemma session_path_plain:
  assumes "slash_free k"
  shows "session_path st k now =
           dir_prefix (storageDir st) @ ''sessions/'' @ k @ ''-'' @ show_nat now @ ''.json''"
  unfolding session_path_def Let_def
  using path_join_sessions[OF session_file_plain[OF assms], of "storageDir st" now]
  by simp






lemma storageDir_apply_op: "storageDir (apply_op st op) = storageDir st"
  by (cases op) (simp_all add: saveTest_def saveSession_def)


lemma storageDir_after: "storageDir (storage_after st ops) = storageDir st"
  by (induction ops rule: rev_induct) (simp_all add: storage_after_def storageDir_apply_op)



lemma show_nat_1700000000500: "show_nat 1700000000500 = ''1700000000500''"
  by (simp add: show_nat.simps digit_char_def)

lemma ex_dir_prefix: "dir_prefix ''./data/tests'' = ''data/tests/''"
  by (simp add: dir_prefix_def dir_segments_def split_str_def startsWith_def normalize_step_def)

lemma ex_test_path:
  "slash_free k \<Longrightarrow> test_path ex_storage0 k = ''data/tests/'' @ k @ ''.json''"
  by (simp add: test_path_plain ex_storage0_def ex_dir_prefix)

lemma ex_storage_eq:
  "ex_storage =
     \<lparr>storageDir = ''./data/tests'',
      files = [''data/tests/test-1700000000000-k3x9q.json'' \<mapsto>
                 TestFile (ex_test [ex_question ''mc-1700000000000-0''])]\<rparr>"
proof -
  have "slash_free ''test-1700000000000-k3x9q''" by (simp add: slash_free_def)
  from ex_test_path[OF this] show ?thesis
    by (simp add: ex_storage_def saveTest_def ex_test_def) (simp add: ex_storage0_def)
qed


lemma ex_session_path:
  "session_path ex_storage0 ''test-1700000000000-k3x9q'' 1700000000500 =
     ''data/tests/sessions/test-1700000000000-k3x9q-1700000000500.json''"
proof -
  have "slash_free ''test-1700000000000-k3x9q''" by (simp add: slash_free_def)
  from session_path_plain[OF this, of ex_storage0 1700000000500] show ?thesis
    by (simp add: ex_storage0_def ex_dir_prefix show_nat_1700000000500)
qed

lemma ex_session_id_path:
  "test_path ex_storage0 ex_session_id =
     ''data/tests/sessions/test-1700000000000-k3x9q-1700000000500.json''"
  by (simp add: test_path_def path_join_def normalize_def normalizeString_def split_str_def
      startsWith_def normalize_step_def ex_storage0_def ex_session_id_def)

lemma ex_history_storage:
  "storage_after ex_storage0 ex_history =
     \<lparr>storageDir = ''./data/tests'',
      files = [''data/tests/test-1700000000000-k3x9q.json'' \<mapsto>
                 TestFile (ex_test [ex_question ''mc-1700000000000-0'']),
               ''data/tests/sessions/test-1700000000000-k3x9q-1700000000500.json'' \<mapsto>
                 SessionFile ex_session]\<rparr>"
proof -
  have "slash_free ''test-1700000000000-k3x9q''" by (simp add: slash_free_def)
  from ex_test_path[OF this]
  have 1: "saveTest ex_storage0 (ex_test [ex_question ''mc-1700000000000-0'']) =
             \<lparr>storageDir = ''./data/tests'',
              files = [''data/tests/test-1700000000000-k3x9q.json'' \<mapsto>
                         TestFile (ex_test [ex_question ''mc-1700000000000-0''])]\<rparr>"
    by (simp add: saveTest_def ex_test_def) (simp add: ex_storage0_def)
  have 2: "session_path \<lparr>storageDir = ''./data/tests'', files = fs\<rparr> ''test-1700000000000-k3x9q''
             1700000000500 =
           ''data/tests/sessions/test-1700000000000-k3x9q-1700000000500.json''" for fs
    using ex_session_path by (simp add: session_path_def ex_storage0_def)
  have 3: "json_session ex_session = ex_session"
    by (simp add: json_session_def ex_session_def)
  have 4: "s_testId ex_session = ''test-1700000000000-k3x9q''"
    by (simp add: ex_session_def)
  show ?thesis
    by (simp add: storage_after_def ex_history_def 1 saveSession_def 2 3 4)
qed




text \<open>
  An id with \<^verbatim>\<open>.\<close> or \<^verbatim>\<open>..\<close> segments is resolved by \<^verbatim>\<open>join\<close>: \<^verbatim>\<open>./test-1700000000000-k3x9q\<close>
  names the file of the stored test.  And the handler answers a request for the session id
  with status 500, the error of reading the questions of a document that has none.
\<close>

lemma loadTest_dot_segment:
  "loadTest ex_storage ''./test-1700000000000-k3x9q'' =
     Inr (Some (TestDoc (ex_test [ex_question ''mc-1700000000000-0''])))"
proof -
  have "test_path ex_storage ''./test-1700000000000-k3x9q'' =
          ''data/tests/test-1700000000000-k3x9q.json''"
    by (simp add: ex_storage_eq test_path_def path_join_def normalize_def normalizeString_def
        split_str_def startsWith_def normalize_step_def)
  then show ?thesis
    by (simp add: loadTest_def loadTest_try_def) (simp add: ex_storage_eq)
qed

lemma get_session_id_fails:
  "fetch (storage_after ex_storage0 ex_history) ''GET''
     ''/api/test/sessions/test-1700000000000-k3x9q-1700000000500'' =
   JsonResponse 500 (ErrorPayload ''TypeError: test.questions is undefined'')"
proof -
  have "getTest (storage_after ex_storage0 ex_history) ex_session_id =
          Inr (Some (SessionDoc ex_session))"
  proof -
    have p: "test_path (storage_after ex_storage0 ex_history) ex_session_id =
             ''data/tests/sessions/test-1700000000000-k3x9q-1700000000500.json''"
      using ex_session_id_path by (simp add: test_path_def storageDir_after)
    show ?thesis
      by (simp add: getTest_def loadTest_def loadTest_try_def p) (simp add: ex_history_storage)
  qed
  then show ?thesis
    by (simp add: fetch_def split_str_def startsWith_def js_index_def missing_id_def
        ex_session_id_def handler_message_def no_questions_def)
qed

lemma split_test_path:
  assumes "CHR ''/'' \<notin> set t"
  shows "split_str (''/api/test/'' @ t) ''/api/test/'' = [[], t]"
  using split_from_no_sep[OF assms, of "''api/test/''" "[]"]
  by (simp add: split_str_def startsWith_def)

lemma get_test_stored:
  assumes "testId \<noteq> []" and "CHR ''/'' \<notin> set testId"
    and "files st (test_path st testId) = Some (TestFile test)"
  shows "fetch st ''GET'' (''/api/test/'' @ testId) =
           JsonResponse 200 (TakingPayload (testForTaking test))"
proof -
  define path where "path = ''/api/test/'' @ testId"
  have sp: "split_str path ''/api/test/'' = [[], testId]"
    unfolding path_def by (rule split_test_path[OF assms(2)])
  have st: "startsWith path ''/api/test/''"
    by (simp add: path_def startsWith_def)
  have ne: "path \<noteq> ''/api/search''"
    by (simp add: path_def)
  have "fetch st ''GET'' path = JsonResponse 200 (TakingPayload (testForTaking test))"
    using assms(1,3)
    by (simp add: fetch_def sp st ne js_index_def missing_id_def
        getTest_def loadTest_def loadTest_try_def)
  then show ?thesis by (simp only: path_def)
qed

text \<open>
  Every \<^verbatim>\<open>GET\<close> request under \<^verbatim>\<open>/api/test/\<close> is answered by the test-taking branch, which
  comes first; no \<^verbatim>\<open>GET\<close> request is answered with an unredacted test.
\<close>

lemma get_never_unredacted:
  "fetch st ''GET'' path \<noteq> JsonResponse code (TestPayload doc)"
  by (simp add: fetch_def Let_def split: sum.split option.split document.split)

text \<open>
  Claim C3 fails on the code.  With a test stored under the id \<^verbatim>\<open>test-1700000000000-k3x9q\<close>,
  the request \<^verbatim>\<open>GET /api/test/test-1700000000000-k3x9q/answers\<close> is taken by the test-taking
  branch, which looks up the id \<^verbatim>\<open>test-1700000000000-k3x9q/answers\<close> and answers 404; the
  branch that would return the unredacted test is never reached.
\<close>

theorem get_answers_route_shadowed:
  "getTest ex_storage ''test-1700000000000-k3x9q'' =
     Inr (Some (TestDoc (ex_test [ex_question ''mc-1700000000000-0'']))) \<and>
   fetch ex_storage ''GET'' ''/api/test/test-1700000000000-k3x9q/answers'' =
     JsonResponse 404 (ErrorPayload ''Test not found'')"
proof -
  have 1: "test_path ex_storage ''test-1700000000000-k3x9q'' =
             ''data/tests/test-1700000000000-k3x9q.json''"
    by (simp add: ex_storage_eq test_path_def path_join_def normalize_def normalizeString_def
        split_str_def startsWith_def normalize_step_def)
  have 2: "test_path ex_storage ''test-1700000000000-k3x9q/answers'' =
             ''data/tests/test-1700000000000-k3x9q/answers.json''"
    by (simp add: ex_storage_eq test_path_def path_join_def normalize_def normalizeString_def
        split_str_def startsWith_def normalize_step_def)
  have 3: "getTest ex_storage ''test-1700000000000-k3x9q'' =
             Inr (Some (TestDoc (ex_test [ex_question ''mc-1700000000000-0''])))"
    by (simp add: getTest_def loadTest_def loadTest_try_def 1) (simp add: ex_storage_eq)
  have 4: "getTest ex_storage ''test-1700000000000-k3x9q/answers'' = Inr None"
    by (simp add: getTest_def loadTest_def loadTest_try_def 2) (simp add: ex_storage_eq)
  have 5: "fetch ex_storage ''GET'' ''/api/test/test-1700000000000-k3x9q/answers'' =
             JsonResponse 404 (ErrorPayload ''Test not found'')"
    using 4 by (simp add: fetch_def split_str_def js_index_def missing_id_def startsWith_def)
  from 3 5 show ?thesis by simp
qed

text \<open>
  Claim C4.  For a stored test whose id is non-empty and has no slash, the response of
  \<^verbatim>\<open>GET /api/test/{id}\<close> is the test with every question reduced to its id, type, question
  text and options; it holds no correct answers and no explanation, and it stays the same
  whatever correct answers and explanations the stored questions carry.
\<close>

theorem get_test_strips_answers:
  assumes "testId \<noteq> []" and "CHR ''/'' \<notin> set testId"
    and "files st (test_path st testId) = Some (TestFile test)"
  shows "fetch st ''GET'' (''/api/test/'' @ testId) =
           JsonResponse 200 (TakingPayload (testForTaking test)) \<and>
         tt_questions (testForTaking test) =
           map (\<lambda>q. \<lparr>tq_id = qid q, tq_type = qtype q, tq_question = question q,
                      tq_options = options q\<rparr>) (questions test) \<and>
         (\<forall>ca ex.
            fetch (st\<lparr>files := (files st)(test_path st testId \<mapsto>
                     TestFile (test\<lparr>questions :=
                       map (\<lambda>q. q\<lparr>correctAnswers := ca q, explanation := ex q\<rparr>)
                         (questions test)\<rparr>))\<rparr>)
              ''GET'' (''/api/test/'' @ testId) =
            fetch st ''GET'' (''/api/test/'' @ testId))"
proof -
  have 1: "fetch st ''GET'' (''/api/test/'' @ testId) =
             JsonResponse 200 (TakingPayload (testForTaking test))"
    by (rule get_test_stored[OF assms])
  have 2: "tt_questions (testForTaking test) =
             map (\<lambda>q. \<lparr>tq_id = qid q, tq_type = qtype q, tq_question = question q,
                        tq_options = options q\<rparr>) (questions test)"
    by (simp add: testForTaking_def taking_view_def)
  have 3: "fetch (st\<lparr>files := (files st)(test_path st testId \<mapsto>
                     TestFile (test\<lparr>questions :=
                       map (\<lambda>q. q\<lparr>correctAnswers := ca q, explanation := ex q\<rparr>)
                         (questions test)\<rparr>))\<rparr>)
              ''GET'' (''/api/test/'' @ testId) =
            fetch st ''GET'' (''/api/test/'' @ testId)" for ca ex
  proof -
    let ?test' = "test\<lparr>questions :=
                       map (\<lambda>q. q\<lparr>correctAnswers := ca q, explanation := ex q\<rparr>)
                         (questions test)\<rparr>"
    let ?st' = "st\<lparr>files := (files st)(test_path st testId \<mapsto> TestFile ?test')\<rparr>"
    have "files ?st' (test_path ?st' testId) = Some (TestFile ?test')"
      by (simp add: test_path_def)
    from get_test_stored[OF assms(1,2) this]
    have "fetch ?st' ''GET'' (''/api/test/'' @ testId) =
            JsonResponse 200 (TakingPayload (testForTaking ?test'))" .
    moreover have "testForTaking ?test' = testForTaking test"
      by (simp add: testForTaking_def taking_view_def)
    ultimately show ?thesis using 1 by simp
  qed
  from 1 2 3 show ?thesis by blast
qed

theorem get_test_strips_answers_witness:
  "files ex_storage (test_path ex_storage ''test-1700000000000-k3x9q'') =
     Some (TestFile (ex_test [ex_question ''mc-1700000000000-0''])) \<and>
   fetch ex_storage ''GET'' ''/api/test/test-1700000000000-k3x9q'' =
     JsonResponse 200 (TakingPayload
       \<lparr>tt_id = ''test-1700000000000-k3x9q'', tt_certificationName = ''AZ-900'',
        tt_certificationUrl = Some ''https://learn.microsoft.com/az-900'',
        tt_generatedAt = ''2023-11-14T22:13:20.000Z'', tt_questionCount = 1,
        tt_questions =
          [\<lparr>tq_id = ''mc-1700000000000-0'', tq_type = MultipleChoice,
            tq_question = ''Which service stores blobs?'',
            tq_options = [''A'', ''B'', ''C'', ''D'']\<rparr>]\<rparr>)"
proof -
  have h1: "''test-1700000000000-k3x9q'' \<noteq> []" by simp
  have h2: "CHR ''/'' \<notin> set ''test-1700000000000-k3x9q''" by simp
  have h3: "files ex_storage (test_path ex_storage ''test-1700000000000-k3x9q'') =
              Some (TestFile (ex_test [ex_question ''mc-1700000000000-0'']))"
    by (simp add: ex_storage_def ex_storage0_def saveTest_def test_path_def ex_test_def)
  from get_test_strips_answers[OF h1 h2 h3] h3 show ?thesis
    by (simp add: testForTaking_def taking_view_def ex_test_def ex_question_def)
qed


section \<open>Properties of the question generator\<close>

lemma show_nat_1700000000000: "show_nat 1700000000000 = ''1700000000000''"
  by (simp add: show_nat.simps digit_char_def)

lemma show_nat_1700000000001: "show_nat 1700000000001 = ''1700000000001''"
  by (simp add: show_nat.simps digit_char_def)

lemma show_nat_0: "show_nat 0 = ''0''"
  by (simp add: show_nat.simps digit_char_def)

lemma multipleChoiceCount_1: "multipleChoiceCount 1 = 0"
  by code_simp

lemma ex_reply_ms_match: "json_array_match ex_reply_ms = Some ex_json_ms"
  by (simp add: json_array_match_def ex_reply_ms_def ex_json_ms_def)

lemma ex_json_mc_match: "json_array_match ex_json_mc = Some ex_json_mc"
  by (simp add: json_array_match_def ex_json_mc_def)

lemma ex_replies_not_empty: "ex_reply_ms \<noteq> []" "ex_json_mc \<noteq> []"
  by (simp_all add: ex_reply_ms_def ex_json_mc_def)

lemma ex_mc_batch:
  "fst (generateMultipleChoiceQuestions ex_env t c) = Inr [ex_bad_mc]"
  by (simp add: generateMultipleChoiceQuestions_def ex_env_def rethrow_def reply_json_def
      ex_json_mc_match ex_replies_not_empty map_index_def Let_def mc_to_question_def
      ex_raw_mc_def ex_bad_mc_def js_index_def show_nat_1700000000000 show_nat_0)

lemma ex_ms_batch:
  "fst (generateMultipleSelectQuestions ex_env t c) = Inr [ex_bad_ms]"
  by (simp add: generateMultipleSelectQuestions_def ex_env_def rethrow_def reply_json_def
      ex_reply_ms_match ex_replies_not_empty map_index_def Let_def ms_to_question_def
      ex_raw_ms_def ex_bad_ms_def js_index_def show_nat_1700000000001 show_nat_0)

text \<open>
  Claim C2 fails on the code, which checks nothing of what the completion service returns.
  A request for one question goes to the multi-answer sub-batch; a reply whose record names a
  single correct index becomes a multi-answer question with one correct answer.  In the
  single-answer sub-batch a correct index past the options becomes the correct answer
  \<^verbatim>\<open>undefined\<close>, which is not among the options.
\<close>

theorem generated_questions_break_invariant:
  "fst (generateQuestions ex_env ''Azure Blob Storage stores unstructured data.'' [] 1) =
     Inr [ex_bad_ms] \<and>
   \<not> spec_question_invariant ex_bad_ms \<and>
   fst (generateMultipleChoiceQuestions ex_env ''Azure Blob Storage stores unstructured data.'' 1) =
     Inr [ex_bad_mc] \<and>
   \<not> spec_question_invariant ex_bad_mc"
proof -
  have "fst (generateQuestions ex_env ''Azure Blob Storage stores unstructured data.'' [] 1) =
          Inr [ex_bad_ms]"
    by (simp add: generateQuestions_def multipleChoiceCount_1 multipleSelectCount_def
        ex_ms_batch shuffleArray_def Let_def case_prod_beta)
  moreover have "\<not> spec_question_invariant ex_bad_ms"
    by (simp add: spec_question_invariant_def ex_bad_ms_def)
  moreover have "fst (generateMultipleChoiceQuestions ex_env
            ''Azure Blob Storage stores unstructured data.'' 1) = Inr [ex_bad_mc]"
    by (rule ex_mc_batch)
  moreover have "\<not> spec_question_invariant ex_bad_mc"
    by (simp add: spec_question_invariant_def ex_bad_mc_def)
  ultimately show ?thesis by blast
qed

section \<open>Binary64 rounding\<close>

lemma bitlen_powi_bounds:
  assumes "0 < p"
  shows "(2::rat) powi (bitlen p - 1) \<le> of_int p" and "of_int p < (2::rat) powi (bitlen p)"
proof -
  from bitlen_bounds[OF assms]
  have b: "2 ^ nat (bitlen p - 1) \<le> p" "p < 2 ^ nat (bitlen p)" by simp_all
  have pos: "1 \<le> bitlen p"
    using assms bitlen_eq_zero_iff[of p] bitlen_nonneg[of p] by linarith
  have "(2::rat) powi (bitlen p - 1) = of_int (2 ^ nat (bitlen p - 1))"
    using pos by (simp add: power_int_nonneg_exp)
  also have "\<dots> \<le> of_int p" using b(1) by (simp only: of_int_le_iff)
  finally show "(2::rat) powi (bitlen p - 1) \<le> of_int p" .
  have "(of_int p :: rat) < of_int (2 ^ nat (bitlen p))"
    using b(2) by (simp only: of_int_less_iff)
  also have "\<dots> = 2 powi (bitlen p)"
    using pos by (simp add: power_int_nonneg_exp)
  finally show "of_int p < (2::rat) powi (bitlen p)" .
qed

lemma ilog2_bounds:
  assumes "0 < x"
  shows "2 powi (ilog2 x) \<le> x" and "x < 2 powi (ilog2 x + 1)"
proof -
  obtain p q where pq: "quotient_of x = (p, q)" by (cases "quotient_of x")
  have q: "0 < q" using pq by (rule quotient_of_denom_pos)
  have x: "x = of_int p / of_int q" using pq by (rule quotient_of_div)
  have p: "0 < p" using assms q by (simp add: x zero_less_divide_iff)
  define e0 where "e0 = bitlen p - bitlen q"
  note P = bitlen_powi_bounds[OF p] and Q = bitlen_powi_bounds[OF q]
  have qpos: "(0::rat) < of_int q" using q by simp
  have "x < 2 powi (bitlen p) / 2 powi (bitlen q - 1)"
    unfolding x using P(2) Q(1) p
    by (intro frac_less) simp_all
  also have "\<dots> = 2 powi (e0 + 1)"
    by (simp add: e0_def power_int_diff[symmetric] algebra_simps)
  finally have up: "x < 2 powi (e0 + 1)" .
  have "(2::rat) powi (e0 - 1) = 2 powi (bitlen p - 1) / 2 powi (bitlen q)"
    by (simp add: e0_def power_int_diff[symmetric] algebra_simps)
  also have "\<dots> \<le> x"
    unfolding x using P(1) Q(2) qpos p
    by (intro frac_le) simp_all
  finally have lo: "2 powi (e0 - 1) \<le> x" .
  have il: "ilog2 x = (if 2 powi e0 \<le> x then e0 else e0 - 1)"
    by (simp add: ilog2_def pq e0_def Let_def)
  show "2 powi (ilog2 x) \<le> x" using lo by (simp add: il)
  show "x < 2 powi (ilog2 x + 1)" using up by (auto simp: il not_le)
qed

lemma round_half_even_error: "\<bar>of_int (round_half_even z) - z\<bar> \<le> 1 / 2"
proof -
  have "of_int \<lfloor>z\<rfloor> \<le> z" "z < of_int \<lfloor>z\<rfloor> + 1" by linarith+
  then show ?thesis
    by (auto simp: round_half_even_def Let_def abs_le_iff)
qed


lemma fl64_pos:
  assumes "0 < x"
  shows "fl64 x = of_int (round_half_even (x / 2 powi (ilog2 x - 52))) * 2 powi (ilog2 x - 52)"
  using assms by (simp add: fl64_def Let_def)

text \<open>The rounding error is at most half a unit in the last place.\<close>

lemma fl64_error:
  assumes "0 < x"
  shows "\<bar>fl64 x - x\<bar> \<le> 2 powi (ilog2 x - 53)"
proof -
  define u :: rat where "u = 2 powi (ilog2 x - 52)"
  have u: "0 < u" by (simp add: u_def)
  have "fl64 x - x = (of_int (round_half_even (x / u)) - x / u) * u"
    using u by (simp add: fl64_pos[OF assms] u_def[symmetric] algebra_simps)
  then have "\<bar>fl64 x - x\<bar> = \<bar>of_int (round_half_even (x / u)) - x / u\<bar> * u"
    using u by (simp add: abs_mult)
  also have "\<dots> \<le> 1 / 2 * u"
    using round_half_even_error[of "x / u"] u by (intro mult_right_mono) simp_all
  also have "\<dots> = 2 powi (ilog2 x - 53)"
    by (simp add: u_def power_int_diff)
  finally show ?thesis .
qed

lemma fl64_relative_error:
  assumes "0 < x"
  shows "\<bar>fl64 x - x\<bar> \<le> x / 2 ^ 53"
proof -
  have "(2::rat) powi (ilog2 x - 53) = 2 powi (ilog2 x) / 2 ^ 53"
    by (simp add: power_int_diff)
  also have "\<dots> \<le> x / 2 ^ 53"
    using ilog2_bounds(1)[OF assms] by (intro divide_right_mono) simp_all
  finally show ?thesis using fl64_error[OF assms] by linarith
qed



section \<open>The score of a test with questions\<close>

lemma fl64_bounds:
  assumes "0 \<le> x"
  shows "x * (1 - 1 / 2 ^ 53) \<le> fl64 x" and "fl64 x \<le> x * (1 + 1 / 2 ^ 53)"
proof -
  have "x * (1 - 1 / 2 ^ 53) \<le> fl64 x \<and> fl64 x \<le> x * (1 + 1 / 2 ^ 53)"
  proof (cases "x = 0")
    case True
    then show ?thesis by (simp add: fl64_def)
  next
    case False
    with assms have "0 < x" by simp
    from fl64_relative_error[OF this]
    have "fl64 x - x \<le> x / 2 ^ 53" "x - fl64 x \<le> x / 2 ^ 53" by linarith+
    then show ?thesis by (simp add: algebra_simps)
  qed
  then show "x * (1 - 1 / 2 ^ 53) \<le> fl64 x" and "fl64 x \<le> x * (1 + 1 / 2 ^ 53)"
    by simp_all
qed

lemma percent_score_range:
  assumes "c \<le> n" and "0 < n"
  shows "\<exists>s. percent_score c n = Num s \<and> 0 \<le> s \<and> s \<le> 100"
proof -
  define x :: rat where "x = of_nat c / of_nat n"
  define q where "q = fl64 x"
  define p where "p = fl64 (q * 100)"
  have x: "0 \<le> x" "x \<le> 1" using assms by (simp_all add: x_def)
  have q0: "0 \<le> q"
  proof -
    have "0 \<le> x * (1 - 1 / 2 ^ 53)" using x(1) by (intro mult_nonneg_nonneg) simp_all
    with fl64_bounds(1)[OF x(1)] show ?thesis by (simp add: q_def)
  qed
  have q1: "q \<le> 1 + 1 / 2 ^ 53"
  proof -
    have "q \<le> x * (1 + 1 / 2 ^ 53)" unfolding q_def by (rule fl64_bounds(2)[OF x(1)])
    also have "\<dots> \<le> 1 * (1 + 1 / 2 ^ 53)" using x(2) by (intro mult_right_mono) simp_all
    finally show ?thesis by simp
  qed
  have y0: "0 \<le> q * 100" using q0 by simp
  have p0: "0 \<le> p"
  proof -
    have "0 \<le> q * 100 * (1 - 1 / 2 ^ 53)" using y0 by (intro mult_nonneg_nonneg) simp_all
    with fl64_bounds(1)[OF y0] show ?thesis by (simp add: p_def)
  qed
  have p1: "p < 100 + 1 / 2"
  proof -
    have "p \<le> q * 100 * (1 + 1 / 2 ^ 53)" unfolding p_def by (rule fl64_bounds(2)[OF y0])
    also have "\<dots> \<le> (1 + 1 / 2 ^ 53) * 100 * (1 + 1 / 2 ^ 53)"
      using q1 by (intro mult_right_mono) simp_all
    also have "\<dots> < 100 + 1 / 2" by simp
    finally show ?thesis .
  qed
  have "0 \<le> math_round p" using p0 by (simp add: math_round_def)
  moreover have "math_round p \<le> 100"
  proof -
    have "p + 1 / 2 < of_int 101" using p1 by simp
    then have "\<lfloor>p + 1 / 2\<rfloor> < 101" by (simp only: floor_less_iff)
    then show ?thesis by (simp add: math_round_def)
  qed
  moreover have "percent_score c n = Num (math_round p)"
    using assms(2) by (simp add: percent_score_def p_def q_def x_def)
  ultimately show ?thesis by blast
qed

text \<open>
  What does hold of every result the scorer returns: the total is the number of questions,
  the incorrect count is the total less the correct count, which is at most the total, and a
  test with at least one question gets an integer score between 0 and 100.
\<close>

lemma calculateScore_counts:
  assumes "calculateScore test answers = Inr r"
  shows "total r = length (questions test)"
    and "incorrect r = int (total r) - int (result_correct r)"
    and "result_correct r \<le> total r"
    and "questions test \<noteq> [] \<Longrightarrow> \<exists>s. score r = Num s \<and> 0 \<le> s \<and> s \<le> 100"
proof -
  define c where
    "c = length (filter (\<lambda>q. correct (projr (score_question answers q))) (questions test))"
  from assms have "list_all (\<lambda>q. \<not> reads_inherited answers q) (questions test)"
    using calculateScore_throws_iff(2)[of test answers] by blast
  from calculateScore_eq[OF this] assms
  have r: "r = \<lparr>score = percent_score c (length (questions test)),
              total = length (questions test), result_correct = c,
              incorrect = int (length (questions test)) - int c,
              details = map (\<lambda>q. projr (score_question answers q)) (questions test)\<rparr>"
    by (simp add: c_def)
  have c: "c \<le> length (questions test)" by (simp add: c_def)
  show "total r = length (questions test)" by (simp add: r)
  show "incorrect r = int (total r) - int (result_correct r)" by (simp add: r)
  show "result_correct r \<le> total r" using c by (simp add: r)
  show "\<exists>s. score r = Num s \<and> 0 \<le> s \<and> s \<le> 100" if "questions test \<noteq> []"
    using percent_score_range[OF c] that by (simp add: r)
qed

section \<open>The shuffle\<close>

text \<open>For a draw in \<open>[0, 1)\<close> the index \<open>j\<close> is at most \<open>i\<close>, so both reads are in range.\<close>

lemma random_index_le:
  assumes "0 \<le> r" and "r \<le> 1 - 1 / 2 ^ 53"
  shows "random_index r i \<le> i"
proof -
  define x where "x = r * of_nat (i + 1)"
  have "fl64 x < of_nat (i + 1)"
  proof (cases "x = 0")
    case True
    then show ?thesis by (simp add: fl64_def)
  next
    case False
    then have x: "0 < x" using assms(1) by (simp add: x_def zero_less_mult_iff less_le)
    have "fl64 x \<le> x + x / 2 ^ 53"
      using fl64_relative_error[OF x] by linarith
    also have "\<dots> = x * (1 + 1 / 2 ^ 53)" by (simp add: algebra_simps)
    also have "\<dots> \<le> (1 - 1 / 2 ^ 53) * of_nat (i + 1) * (1 + 1 / 2 ^ 53)"
      unfolding x_def using assms(2)
      by (intro mult_right_mono) simp_all
    also have "\<dots> = of_nat (i + 1) * ((1 - 1 / 2 ^ 53) * (1 + 1 / 2 ^ 53))"
      by (simp only: mult_ac)
    also have "\<dots> < of_nat (i + 1) * 1"
      by (intro mult_strict_left_mono) simp_all
    finally show ?thesis by simp
  qed
  then have "\<lfloor>fl64 x\<rfloor> < int (i + 1)"
    by (simp add: floor_less_iff)
  then show ?thesis
    by (simp add: random_index_def x_def)
qed

lemma mset_swap_list:
  assumes "i < length xs" and "j < length xs"
  shows "mset (swap i j xs) = mset xs" and "length (swap i j xs) = length xs"
  using assms mset_swap[of j xs i] by (simp_all add: swap_def)

lemma shuffle_loop_mset:
  assumes "random_ok rnd" and "i < length xs"
  shows "mset (shuffle_loop rnd k i xs) = mset xs"
  using assms(2)
proof (induction i arbitrary: k xs)
  case 0
  then show ?case by simp
next
  case (Suc i)
  define j where "j = random_index (rnd k) (Suc i)"
  have "j \<le> Suc i"
    using assms(1) unfolding j_def random_ok_def by (intro random_index_le) simp_all
  then have j: "j < length xs" using Suc.prems by simp
  have "mset (shuffle_loop rnd (k + 1) i (swap (Suc i) j xs)) = mset (swap (Suc i) j xs)"
    using Suc.prems j by (intro Suc.IH) (simp add: mset_swap_list(2))
  then show ?case
    using Suc.prems j by (simp add: j_def[symmetric] mset_swap_list(1))
qed

lemma shuffleArray_mset:
  assumes "random_ok rnd"
  shows "mset (shuffleArray rnd xs) = mset xs"
proof (cases xs)
  case Nil
  then show ?thesis by (simp add: shuffleArray_def)
next
  case (Cons x xs')
  then show ?thesis
    unfolding shuffleArray_def by (intro shuffle_loop_mset[OF assms]) simp
qed


text \<open>Every index up to \<open>i\<close> is the result of some draw.\<close>

lemma random_index_choice:
  assumes "j \<le> i" and "i < 2 ^ 52"
  shows "\<exists>r. 0 \<le> r \<and> r \<le> 1 - 1 / 2 ^ 53 \<and> random_index r i = j"
proof -
  define r :: rat where "r = (2 * of_nat j + 1) / (2 * of_nat (i + 1))"
  define x :: rat where "x = r * of_nat (i + 1)"
  have x: "x = of_nat j + 1 / 2" by (simp add: x_def r_def field_simps)
  have ji: "(of_nat j :: rat) \<le> of_nat i" using assms(1) by simp
  have i52: "(of_nat i :: rat) + 1 \<le> 2 ^ 52"
  proof -
    have "i + 1 \<le> 2 ^ 52" using assms(2) by simp
    then have "(of_nat (i + 1) :: rat) \<le> of_nat (2 ^ 52)" by (simp only: of_nat_le_iff)
    then show ?thesis by simp
  qed
  have xpos: "0 < x" by (simp add: x add_pos_nonneg)
  have "x < 2 ^ 52" using ji i52 by (simp add: x)
  then have "x / 2 ^ 53 < 1 / 2" by simp
  with fl64_relative_error[OF xpos] have "\<bar>fl64 x - x\<bar> < 1 / 2" by linarith
  with x have "of_nat j \<le> fl64 x" "fl64 x < of_nat j + 1"
    by linarith+
  then have "of_int (int j) \<le> fl64 x" "fl64 x < of_int (int j) + 1"
    by simp_all
  then have "\<lfloor>fl64 x\<rfloor> = int j" by (rule floor_unique)
  then have 3: "random_index r i = j" by (simp add: random_index_def x_def)
  have 1: "0 \<le> r" by (simp add: r_def)
  have "r \<le> (2 * of_nat i + 1) / (2 * of_nat (i + 1))"
    unfolding r_def using ji by (intro divide_right_mono) simp_all
  also have "\<dots> = 1 - 1 / (2 * (of_nat i + 1))"
    by (simp add: field_simps)
  also have "\<dots> \<le> 1 - 1 / 2 ^ 53"
  proof -
    have "2 * ((of_nat i :: rat) + 1) \<le> 2 ^ 53" using i52 by simp
    moreover have "(0::rat) < 2 * (of_nat i + 1)" by (simp add: add_pos_nonneg)
    ultimately have "1 / (2 ^ 53 :: rat) \<le> 1 / (2 * (of_nat i + 1))"
      by (intro divide_left_mono) simp_all
    then show ?thesis by simp
  qed
  finally have 2: "r \<le> 1 - 1 / 2 ^ 53" .
  from 1 2 3 show ?thesis by blast
qed


lemma shuffle_loop_cong:
  fixes xs :: "'a list"
  assumes "\<forall>m \<ge> k. rnd m = rnd' m"
  shows "shuffle_loop rnd k i xs = shuffle_loop rnd' k i xs"
  using assms
proof (induction i arbitrary: k xs)
  case 0
  then show ?case by simp
next
  case (Suc i)
  have "rnd k = rnd' k" using Suc.prems by simp
  moreover have "shuffle_loop rnd (k + 1) i zs = shuffle_loop rnd' (k + 1) i zs"
    for zs :: "'a list"
  proof -
    have "\<forall>m \<ge> k + 1. rnd m = rnd' m" using Suc.prems by simp
    then show ?thesis by (rule Suc.IH)
  qed
  ultimately show ?case by simp
qed

lemma swap_append:
  assumes "i < length pre" and "j < length pre"
  shows "swap i j (pre @ suf) = swap i j pre @ suf"
  using assms by (simp add: swap_def list_update_append nth_append)

lemma shuffle_loop_prefix:
  assumes "random_ok rnd" and "i < length pre"
  shows "shuffle_loop rnd k i (pre @ suf) = shuffle_loop rnd k i pre @ suf"
  using assms(2)
proof (induction i arbitrary: k pre)
  case 0
  then show ?case by simp
next
  case (Suc i)
  define j where "j = random_index (rnd k) (Suc i)"
  have "j \<le> Suc i"
    using assms(1) unfolding j_def random_ok_def by (intro random_index_le) simp_all
  then have j: "j < length pre" using Suc.prems by simp
  have "shuffle_loop rnd (k + 1) i (swap (Suc i) j pre @ suf) =
          shuffle_loop rnd (k + 1) i (swap (Suc i) j pre) @ suf"
    using Suc.prems j by (intro Suc.IH) (simp add: mset_swap_list(2))
  then show ?case
    using Suc.prems j by (simp add: j_def[symmetric] swap_append)
qed

lemma shuffle_loop_reaches:
  assumes "length xs = i + 1" and "mset ys = mset xs" and "i < 2 ^ 52"
  shows "\<exists>rnd. random_ok rnd \<and> shuffle_loop rnd k i xs = ys"
  using assms
proof (induction i arbitrary: xs ys k)
  case 0
  then obtain x where "xs = [x]" by (cases xs) auto
  with 0 have "ys = [x]" by simp
  moreover have "random_ok (\<lambda>k. 0)" by (simp add: random_ok_def)
  ultimately show ?case using \<open>xs = [x]\<close> by (intro exI[of _ "\<lambda>k. 0"]) simp
next
  case (Suc i)
  have "length ys = Suc i + 1" using Suc.prems(1,2) by (metis size_mset)
  then obtain ys' y where ys: "ys = ys' @ [y]"
    by (cases ys rule: rev_cases) auto
  have "y \<in> set xs" using Suc.prems(2) ys by (metis in_set_conv_decomp mset_eq_setD)
  then obtain j where j: "j < length xs" "xs ! j = y" by (auto simp: in_set_conv_nth)
  then have "j \<le> Suc i" using Suc.prems(1) by simp
  from random_index_choice[OF this Suc.prems(3)] obtain r where
    r: "0 \<le> r" "r \<le> 1 - 1 / 2 ^ 53" "random_index r (Suc i) = j" by blast
  define zs where "zs = swap (Suc i) j xs"
  have lz: "length zs = Suc i + 1" using Suc.prems(1) by (simp add: zs_def swap_def)
  have mz: "mset zs = mset xs"
    unfolding zs_def using Suc.prems(1) j(1) by (intro mset_swap_list(1)) simp_all
  have last: "zs ! Suc i = y"
    using Suc.prems(1) j by (cases "j = Suc i") (simp_all add: zs_def swap_def)
  define pre where "pre = take (Suc i) zs"
  have zs: "zs = pre @ [y]"
  proof -
    have "take (Suc (Suc i)) zs = take (Suc i) zs @ [zs ! Suc i]"
      using lz by (intro take_Suc_conv_app_nth) simp
    then show ?thesis using lz last by (simp add: pre_def)
  qed
  have lp: "length pre = i + 1" using lz by (simp add: pre_def)
  have "mset pre + {#y#} = mset ys' + {#y#}"
    using mz Suc.prems(2) by (simp add: zs ys)
  then have mp: "mset ys' = mset pre" by simp
  have "i < 2 ^ 52" using Suc.prems(3) by simp
  from Suc.IH[OF lp mp this, of "k + 1"] obtain rnd' where
    rnd': "random_ok rnd'" "shuffle_loop rnd' (k + 1) i pre = ys'" by blast
  define rnd where "rnd = rnd'(k := r)"
  have ok: "random_ok rnd"
    using rnd'(1) r(1,2) by (simp add: rnd_def random_ok_def)
  have s1: "shuffle_loop rnd k (Suc i) xs = shuffle_loop rnd (k + 1) i zs"
    by (simp add: rnd_def r(3) zs_def)
  have s2: "shuffle_loop rnd (k + 1) i zs = shuffle_loop rnd (k + 1) i pre @ [y]"
    unfolding zs using lp by (intro shuffle_loop_prefix[OF ok]) simp
  have s3: "shuffle_loop rnd (k + 1) i pre = shuffle_loop rnd' (k + 1) i pre"
    by (rule shuffle_loop_cong) (simp add: rnd_def)
  have "shuffle_loop rnd k (Suc i) xs = ys"
    by (simp only: s1 s2 s3 rnd'(2) ys)
  with ok show ?case by blast
qed

text \<open>Every arrangement of the array is the result of the shuffle for some draws.\<close>

lemma shuffleArray_reaches_every_order:
  assumes "mset ys = mset xs" and "length xs \<le> 2 ^ 52"
  shows "\<exists>rnd. random_ok rnd \<and> shuffleArray rnd xs = ys"
proof (cases xs)
  case Nil
  with assms(1) have "ys = []" by simp
  moreover have "random_ok (\<lambda>k. 0)" by (simp add: random_ok_def)
  ultimately show ?thesis using Nil by (intro exI[of _ "\<lambda>k. 0"]) (simp add: shuffleArray_def)
next
  case (Cons x xs')
  then have "length xs = (length xs - 1) + 1" by simp
  moreover have "length xs - 1 < 2 ^ 52" using assms(2) Cons by simp
  ultimately show ?thesis
    unfolding shuffleArray_def using assms(1) by (intro shuffle_loop_reaches)
qed

text \<open>
  Different choices of the swap indices give different arrangements of an array without
  repeated elements: the draws decide the result through the indices only, and each of the
  index sequences gives an arrangement of its own.
\<close>

lemma swap_last:
  assumes "length xs = Suc i + 1" and "j \<le> Suc i"
  shows "swap (Suc i) j xs = take (Suc i) (swap (Suc i) j xs) @ [xs ! j]"
proof -
  define zs where "zs = swap (Suc i) j xs"
  have lz: "length zs = Suc i + 1" using assms(1) by (simp add: zs_def swap_def)
  have last: "zs ! Suc i = xs ! j"
    using assms by (cases "j = Suc i") (simp_all add: zs_def swap_def)
  have "take (Suc (Suc i)) zs = take (Suc i) zs @ [zs ! Suc i]"
    using lz by (intro take_Suc_conv_app_nth) simp
  then show ?thesis using lz last by (simp add: zs_def)
qed

lemma shuffle_loop_inj:
  fixes xs :: "'a list"
  assumes "random_ok rnd" and "random_ok rnd'"
    and "distinct xs" and "length xs = i + 1"
    and "shuffle_loop rnd k i xs = shuffle_loop rnd' k' i xs"
  shows "\<forall>m < i. random_index (rnd (k + m)) (i - m) = random_index (rnd' (k' + m)) (i - m)"
  using assms(3-5)
proof (induction i arbitrary: xs k k')
  case 0
  then show ?case by simp
next
  case (Suc i)
  define j where "j = random_index (rnd k) (Suc i)"
  define j' where "j' = random_index (rnd' k') (Suc i)"
  have j: "j \<le> Suc i"
    using assms(1) unfolding j_def random_ok_def by (intro random_index_le) simp_all
  have j': "j' \<le> Suc i"
    using assms(2) unfolding j'_def random_ok_def by (intro random_index_le) simp_all
  define pre where "pre = take (Suc i) (swap (Suc i) j xs)"
  define pre' where "pre' = take (Suc i) (swap (Suc i) j' xs)"
  have z: "swap (Suc i) j xs = pre @ [xs ! j]"
    unfolding pre_def by (rule swap_last[OF Suc.prems(2) j])
  have z': "swap (Suc i) j' xs = pre' @ [xs ! j']"
    unfolding pre'_def by (rule swap_last[OF Suc.prems(2) j'])
  have lp: "length pre = i + 1" "length pre' = i + 1"
    using Suc.prems(2) by (simp_all add: pre_def pre'_def swap_def)
  have l: "shuffle_loop rnd k (Suc i) xs = shuffle_loop rnd (k + 1) i pre @ [xs ! j]"
  proof -
    have "shuffle_loop rnd k (Suc i) xs = shuffle_loop rnd (k + 1) i (pre @ [xs ! j])"
      by (simp add: j_def[symmetric] z)
    also have "\<dots> = shuffle_loop rnd (k + 1) i pre @ [xs ! j]"
      using lp(1) by (intro shuffle_loop_prefix[OF assms(1)]) simp
    finally show ?thesis .
  qed
  have r: "shuffle_loop rnd' k' (Suc i) xs = shuffle_loop rnd' (k' + 1) i pre' @ [xs ! j']"
  proof -
    have "shuffle_loop rnd' k' (Suc i) xs = shuffle_loop rnd' (k' + 1) i (pre' @ [xs ! j'])"
      by (simp add: j'_def[symmetric] z')
    also have "\<dots> = shuffle_loop rnd' (k' + 1) i pre' @ [xs ! j']"
      using lp(2) by (intro shuffle_loop_prefix[OF assms(2)]) simp
    finally show ?thesis .
  qed
  from Suc.prems(3) have e: "shuffle_loop rnd (k + 1) i pre @ [xs ! j] =
                            shuffle_loop rnd' (k' + 1) i pre' @ [xs ! j']"
    by (simp only: l r)
  then have e1: "xs ! j = xs ! j'"
    and e2: "shuffle_loop rnd (k + 1) i pre = shuffle_loop rnd' (k' + 1) i pre'"
    by simp_all
  have jj: "j = j'"
    using e1 Suc.prems(1,2) j j' by (simp add: nth_eq_iff_index_eq)
  then have pp: "pre' = pre" by (simp add: pre_def pre'_def)
  have "mset (swap (Suc i) j xs) = mset xs"
    using Suc.prems(2) j by (intro mset_swap_list(1)) simp_all
  then have "distinct (swap (Suc i) j xs)"
    using Suc.prems(1) by (metis mset_eq_imp_distinct_iff)
  then have dp: "distinct pre" by (simp add: pre_def)
  from e2 have "shuffle_loop rnd (k + 1) i pre = shuffle_loop rnd' (k' + 1) i pre"
    by (simp only: pp)
  from Suc.IH[OF dp lp(1) this]
  have IH: "\<forall>m < i. random_index (rnd (k + 1 + m)) (i - m) =
                    random_index (rnd' (k' + 1 + m)) (i - m)" .
  show ?case
  proof (intro allI impI)
    fix m
    assume m: "m < Suc i"
    show "random_index (rnd (k + m)) (Suc i - m) = random_index (rnd' (k' + m)) (Suc i - m)"
    proof (cases m)
      case 0
      with jj show ?thesis by (simp add: j_def j'_def)
    next
      case (Suc m')
      with m IH have "random_index (rnd (k + 1 + m')) (i - m') =
                       random_index (rnd' (k' + 1 + m')) (i - m')" by simp
      with Suc show ?thesis by simp
    qed
  qed
qed

lemma shuffleArray_inj:
  fixes xs :: "'a list"
  assumes "random_ok rnd" and "random_ok rnd'" and "distinct xs"
    and "shuffleArray rnd xs = shuffleArray rnd' xs"
  shows "\<forall>m < length xs - 1.
           random_index (rnd m) (length xs - 1 - m) = random_index (rnd' m) (length xs - 1 - m)"
proof (cases xs)
  case Nil
  then show ?thesis by simp
next
  case (Cons x xs')
  then have l: "length xs = (length xs - 1) + 1" by simp
  from assms(4) have "shuffle_loop rnd 0 (length xs - 1) xs = shuffle_loop rnd' 0 (length xs - 1) xs"
    by (simp add: shuffleArray_def)
  from shuffle_loop_inj[OF assms(1,2,3) l this] show ?thesis by simp
qed

section \<open>The 60/40 split\<close>







section \<open>Question ids\<close>

lemma digit_char_inj:
  assumes "a < 10" and "b < 10" and "digit_char a = digit_char b"
  shows "a = b"
proof -
  have "distinct ''0123456789''" by simp
  then show ?thesis
    using assms nth_eq_iff_index_eq[of "''0123456789''" a b] by (simp add: digit_char_def)
qed

lemma digit_char_not_dash:
  assumes "d < 10"
  shows "digit_char d \<noteq> CHR ''-''"
proof -
  have "digit_char d \<in> set ''0123456789''"
    unfolding digit_char_def using assms by (intro nth_mem) simp
  then show ?thesis by auto
qed

lemma show_nat_not_Nil: "show_nat n \<noteq> []"
  by (subst show_nat.simps) simp

lemma show_nat_no_dash: "CHR ''-'' \<notin> set (show_nat n)"
proof (induction n rule: show_nat.induct)
  case (1 n)
  show ?case
  proof (cases "n < 10")
    case True
    then show ?thesis
      using digit_char_not_dash[of n] by (subst show_nat.simps) auto
  next
    case False
    then show ?thesis
      using "1" digit_char_not_dash[of "n mod 10"] by (subst show_nat.simps) auto
  qed
qed

lemma show_nat_inj: "show_nat m = show_nat n \<Longrightarrow> m = n"
proof (induction m arbitrary: n rule: show_nat.induct)
  case (1 m)
  show ?case
  proof (cases "m < 10")
    case m: True
    show ?thesis
    proof (cases "n < 10")
      case True
      with m "1.prems" show ?thesis
        using digit_char_inj[of m n] by (simp add: show_nat.simps)
    next
      case False
      with m "1.prems" show_nat_not_Nil[of "n div 10"] show ?thesis
        by (subst (asm) show_nat.simps, subst (asm) (2) show_nat.simps) (simp add: append_eq_Cons_conv)
    qed
  next
    case m: False
    show ?thesis
    proof (cases "n < 10")
      case True
      with m "1.prems" show_nat_not_Nil[of "m div 10"] show ?thesis
        by (subst (asm) show_nat.simps, subst (asm) (2) show_nat.simps) (simp add: Cons_eq_append_conv)
    next
      case False
      with m "1.prems"
      have "show_nat (m div 10) @ [digit_char (m mod 10)] = show_nat (n div 10) @ [digit_char (n mod 10)]"
        by (subst (asm) show_nat.simps, subst (asm) (2) show_nat.simps) simp
      then have "show_nat (m div 10) = show_nat (n div 10)" "digit_char (m mod 10) = digit_char (n mod 10)"
        by simp_all
      then have "m div 10 = n div 10" "m mod 10 = n mod 10"
        using "1.IH"[OF m] digit_char_inj[of "m mod 10" "n mod 10"] by simp_all
      then show ?thesis by (metis div_mult_mod_eq)
    qed
  qed
qed


lemma question_id_index:
  assumes "pre @ show_nat t @ ''-'' @ show_nat i = pre @ show_nat t' @ ''-'' @ show_nat j"
  shows "i = j"
proof -
  from assms have "show_nat t @ CHR ''-'' # show_nat i = show_nat t' @ CHR ''-'' # show_nat j"
    by simp
  from split_at_first_sep[OF show_nat_no_dash show_nat_no_dash this]
  have "show_nat i = show_nat j" by simp
  then show ?thesis by (rule show_nat_inj)
qed

lemma distinct_question_ids:
  "distinct (map (\<lambda>i. pre @ show_nat (now i) @ ''-'' @ show_nat i) [0..<n])"
proof -
  have "inj_on (\<lambda>i. pre @ show_nat (now i) @ ''-'' @ show_nat i) (set [0..<n])"
    by (rule inj_onI) (rule question_id_index)
  then show ?thesis by (simp add: distinct_map)
qed

lemma map_index_map:
  "map g (map_index f xs) = map (\<lambda>(i, x). g (f i x)) (zip [0..<length xs] xs)"
  by (simp add: map_index_def case_prod_beta comp_def)

lemma mc_ids:
  "map qid (map_index (mc_to_question now) parsed) =
     map (\<lambda>i. ''mc-'' @ show_nat (now i) @ ''-'' @ show_nat i) [0..<length parsed]"
proof -
  have "map qid (map_index (mc_to_question now) parsed) =
          map ((\<lambda>i. ''mc-'' @ show_nat (now i) @ ''-'' @ show_nat i) \<circ> fst)
            (zip [0..<length parsed] parsed)"
    by (simp add: map_index_map mc_to_question_def case_prod_beta comp_def)
  also have "\<dots> = map (\<lambda>i. ''mc-'' @ show_nat (now i) @ ''-'' @ show_nat i)
                      (map fst (zip [0..<length parsed] parsed))"
    by (simp only: map_map)
  finally show ?thesis by simp
qed

lemma ms_ids:
  "map qid (map_index (ms_to_question now) parsed) =
     map (\<lambda>i. ''ms-'' @ show_nat (now i) @ ''-'' @ show_nat i) [0..<length parsed]"
proof -
  have "map qid (map_index (ms_to_question now) parsed) =
          map ((\<lambda>i. ''ms-'' @ show_nat (now i) @ ''-'' @ show_nat i) \<circ> fst)
            (zip [0..<length parsed] parsed)"
    by (simp add: map_index_map ms_to_question_def case_prod_beta comp_def)
  also have "\<dots> = map (\<lambda>i. ''ms-'' @ show_nat (now i) @ ''-'' @ show_nat i)
                      (map fst (zip [0..<length parsed] parsed))"
    by (simp only: map_map)
  finally show ?thesis by simp
qed

lemma mc_types: "q \<in> set (map_index (mc_to_question now) parsed) \<Longrightarrow> qtype q = MultipleChoice"
  by (auto simp: map_index_def mc_to_question_def)

lemma ms_types: "q \<in> set (map_index (ms_to_question now) parsed) \<Longrightarrow> qtype q = MultipleSelect"
  by (auto simp: map_index_def ms_to_question_def)

lemma mc_batch_result:
  assumes "fst (generateMultipleChoiceQuestions e t c) = Inr qs"
  shows "\<exists>parsed. qs = map_index (mc_to_question (mc_now e)) parsed"
  using assms
  by (auto simp: generateMultipleChoiceQuestions_def rethrow_def Let_def split: sum.splits)

lemma ms_batch_result:
  assumes "fst (generateMultipleSelectQuestions e t c) = Inr qs"
  shows "\<exists>parsed. qs = map_index (ms_to_question (ms_now e)) parsed"
  using assms
  by (auto simp: generateMultipleSelectQuestions_def rethrow_def Let_def split: sum.splits)

lemma generateQuestions_result:
  assumes "fst (generateQuestions e guide web n) = Inr qs"
  shows "\<exists>mcq msq.
           (if 0 < multipleChoiceCount n
            then fst (generateMultipleChoiceQuestions e (combinedContent guide web)
                       (multipleChoiceCount n))
            else Inr []) = Inr mcq \<and>
           (if 0 < multipleSelectCount n
            then fst (generateMultipleSelectQuestions e (combinedContent guide web)
                       (multipleSelectCount n))
            else Inr []) = Inr msq \<and>
           qs = shuffleArray (random e) (mcq @ msq)"
  using assms
  by (auto simp: generateQuestions_def Let_def split: sum.splits prod.splits if_splits)


lemma batch_of_records:
  assumes "(if 0 < c then fst (generateMultipleChoiceQuestions e t c) else Inr []) = Inr mcq"
    and "(if 0 < c' then fst (generateMultipleSelectQuestions e t c') else Inr []) = Inr msq"
  shows "\<exists>pmc pms. mcq = map_index (mc_to_question (mc_now e)) pmc \<and>
                    msq = map_index (ms_to_question (ms_now e)) pms"
proof -
  have 1: "\<exists>pmc. mcq = map_index (mc_to_question (mc_now e)) pmc"
  proof (cases "0 < c")
    case True
    with assms(1) have "fst (generateMultipleChoiceQuestions e t c) = Inr mcq" by simp
    from mc_batch_result[OF this] show ?thesis .
  next
    case False
    with assms(1) have "mcq = map_index (mc_to_question (mc_now e)) []"
      by (simp add: map_index_def)
    then show ?thesis by blast
  qed
  have 2: "\<exists>pms. msq = map_index (ms_to_question (ms_now e)) pms"
  proof (cases "0 < c'")
    case True
    with assms(2) have "fst (generateMultipleSelectQuestions e t c') = Inr msq" by simp
    from ms_batch_result[OF this] show ?thesis .
  next
    case False
    with assms(2) have "msq = map_index (ms_to_question (ms_now e)) []"
      by (simp add: map_index_def)
    then show ?thesis by blast
  qed
  from 1 2 show ?thesis by blast
qed

text \<open>The questions of the two sub-batches are pairwise different: their ids are.\<close>

lemma batches_distinct:
  assumes "(if 0 < c then fst (generateMultipleChoiceQuestions e t c) else Inr []) = Inr mcq"
    and "(if 0 < c' then fst (generateMultipleSelectQuestions e t c') else Inr []) = Inr msq"
  shows "distinct (mcq @ msq)"
proof -
  from batch_of_records[OF assms] obtain pmc pms where
    pmc: "mcq = map_index (mc_to_question (mc_now e)) pmc" and
    pms: "msq = map_index (ms_to_question (ms_now e)) pms" by blast
  have d1: "distinct (map qid mcq)" unfolding pmc mc_ids by (rule distinct_question_ids)
  have d2: "distinct (map qid msq)" unfolding pms ms_ids by (rule distinct_question_ids)
  have disj: "set (map qid mcq) \<inter> set (map qid msq) = {}"
    unfolding pmc pms mc_ids ms_ids by auto
  have "distinct (map qid (mcq @ msq))"
    using d1 d2 disj by simp
  then show ?thesis by (rule distinct_map[THEN iffD1, THEN conjunct1])
qed

text \<open>The sub-batches do not read \<^verbatim>\<open>Math.random()\<close>; only the shuffle does.\<close>

lemma batches_random:
  "generateMultipleChoiceQuestions (e\<lparr>random := rnd\<rparr>) t c =
     generateMultipleChoiceQuestions e t c"
  "generateMultipleSelectQuestions (e\<lparr>random := rnd\<rparr>) t c =
     generateMultipleSelectQuestions e t c"
  by (simp_all add: generateMultipleChoiceQuestions_def generateMultipleSelectQuestions_def
      Let_def cong: sum.case_cong)

lemma generateQuestions_random:
  assumes "(if 0 < multipleChoiceCount n
            then fst (generateMultipleChoiceQuestions e (combinedContent guide web)
                       (multipleChoiceCount n))
            else Inr []) = Inr mcq"
    and "(if 0 < multipleSelectCount n
            then fst (generateMultipleSelectQuestions e (combinedContent guide web)
                       (multipleSelectCount n))
            else Inr []) = Inr msq"
  shows "fst (generateQuestions (e\<lparr>random := rnd\<rparr>) guide web n) =
           Inr (shuffleArray rnd (mcq @ msq))"
  using assms
  by (auto simp: generateQuestions_def batches_random Let_def case_prod_beta split: if_splits)

text \<open>
  Claim C9.  When \<^verbatim>\<open>generateQuestions\<close> returns, both sub-batches have returned (a skipped
  sub-batch counting as empty) and the delivered sequence is the Fisher-Yates shuffle of
  their concatenation.  It is a rearrangement of the concatenation: each generated question
  occurs in it exactly as often as there, none is added and none is lost.  Every rearrangement
  of the concatenation (of up to \<open>2^52\<close> questions) is delivered for some draws of
  \<^verbatim>\<open>Math.random()\<close>.  And draws that deliver the same sequence make the same choice of swap
  index in every pass of the loop: the arrangements correspond one to one to the sequences of
  swap indices, so that indices drawn uniformly give every arrangement the same chance.  The
  draws of \<^verbatim>\<open>Math.random()\<close> are any binary64 values in \<open>[0, 1)\<close>; how they are distributed
  is not part of the model.
\<close>

theorem generateQuestions_is_permutation:
  assumes "random_ok (random e)" and "fst (generateQuestions e guide web n) = Inr qs"
  shows "\<exists>mcq msq.
           (if 0 < multipleChoiceCount n
            then fst (generateMultipleChoiceQuestions e (combinedContent guide web)
                       (multipleChoiceCount n))
            else Inr []) = Inr mcq \<and>
           (if 0 < multipleSelectCount n
            then fst (generateMultipleSelectQuestions e (combinedContent guide web)
                       (multipleSelectCount n))
            else Inr []) = Inr msq \<and>
           qs = shuffleArray (random e) (mcq @ msq) \<and>
           mset qs = mset (mcq @ msq) \<and>
           (\<forall>ys. mset ys = mset (mcq @ msq) \<and> length ys \<le> 2 ^ 52 \<longrightarrow>
              (\<exists>rnd. random_ok rnd \<and>
                 fst (generateQuestions (e\<lparr>random := rnd\<rparr>) guide web n) = Inr ys)) \<and>
           (\<forall>rnd. random_ok rnd \<and>
                 fst (generateQuestions (e\<lparr>random := rnd\<rparr>) guide web n) = Inr qs \<longrightarrow>
              (\<forall>m < length qs - 1.
                 random_index (rnd m) (length qs - 1 - m) =
                 random_index (random e m) (length qs - 1 - m)))"
proof -
  from generateQuestions_result[OF assms(2)] obtain mcq msq where
    r: "(if 0 < multipleChoiceCount n
         then fst (generateMultipleChoiceQuestions e (combinedContent guide web)
                    (multipleChoiceCount n))
         else Inr []) = Inr mcq"
       "(if 0 < multipleSelectCount n
         then fst (generateMultipleSelectQuestions e (combinedContent guide web)
                    (multipleSelectCount n))
         else Inr []) = Inr msq"
       "qs = shuffleArray (random e) (mcq @ msq)"
    by blast
  note g = generateQuestions_random[OF r(1,2)]
  have d: "distinct (mcq @ msq)" by (rule batches_distinct[OF r(1,2)])
  have p: "mset qs = mset (mcq @ msq)"
    unfolding r(3) by (rule shuffleArray_mset[OF assms(1)])
  then have l: "length qs = length (mcq @ msq)" by (metis size_mset)
  have reach: "\<exists>rnd. random_ok rnd \<and>
                  fst (generateQuestions (e\<lparr>random := rnd\<rparr>) guide web n) = Inr ys"
    if "mset ys = mset (mcq @ msq)" "length ys \<le> 2 ^ 52" for ys
  proof -
    from that have "length (mcq @ msq) \<le> 2 ^ 52" by (metis size_mset)
    from shuffleArray_reaches_every_order[OF that(1) this] obtain rnd where
      "random_ok rnd" "shuffleArray rnd (mcq @ msq) = ys" by blast
    then show ?thesis using g[of rnd] by auto
  qed
  have inj: "\<forall>m < length qs - 1.
               random_index (rnd m) (length qs - 1 - m) =
               random_index (random e m) (length qs - 1 - m)"
    if "random_ok rnd" "fst (generateQuestions (e\<lparr>random := rnd\<rparr>) guide web n) = Inr qs"
    for rnd
  proof -
    from that(2) have "shuffleArray rnd (mcq @ msq) = shuffleArray (random e) (mcq @ msq)"
      by (simp add: g r(3))
    from shuffleArray_inj[OF that(1) assms(1) d this] show ?thesis
      by (simp only: l)
  qed
  from r p reach inj show ?thesis by blast
qed

lemma ex_random_ok: "random_ok (random ex_env)"
  by (simp add: random_ok_def ex_env_def)

lemma random_index_half: "random_index (1 / 2) (Suc 0) = Suc 0"
  by code_simp

lemma random_index_zero: "random_index 0 (Suc 0) = 0"
  by code_simp

lemma random_index_quarter: "random_index (1 / 4) (Suc 0) = 0"
  by code_simp

lemma multipleChoiceCount_2: "multipleChoiceCount 2 = 1"
  by code_simp

lemma ex_generate_2:
  "fst (generateQuestions ex_env guide [] 2) = Inr [ex_bad_mc, ex_bad_ms]"
proof -
  have "shuffleArray (random ex_env) [ex_bad_mc, ex_bad_ms] = [ex_bad_mc, ex_bad_ms]"
    by (simp add: shuffleArray_def ex_env_def random_index_half swap_def)
  then show ?thesis
    using ex_mc_batch ex_ms_batch
    by (simp add: generateQuestions_def multipleChoiceCount_2 multipleSelectCount_def Let_def
        case_prod_beta)
qed

lemma ex_batches:
  "fst (generateMultipleChoiceQuestions ex_env (combinedContent guide []) 1) = Inr [ex_bad_mc]"
  "fst (generateMultipleSelectQuestions ex_env (combinedContent guide []) 1) = Inr [ex_bad_ms]"
  using ex_mc_batch ex_ms_batch by simp_all

text \<open>
  The theorem at a request for two questions with every draw \<open>0\<close>: the shuffle exchanges the
  two questions; draws of \<open>1/2\<close> deliver the other arrangement, and draws of \<open>1/4\<close> choose the
  same swap index as draws of \<open>0\<close>.
\<close>

theorem generateQuestions_is_permutation_witness:
  "random_ok (random ex_env_swap) \<and>
   fst (generateQuestions ex_env_swap ''Azure Blob Storage stores unstructured data.'' [] 2) =
     Inr [ex_bad_ms, ex_bad_mc] \<and>
   [ex_bad_ms, ex_bad_mc] = shuffleArray (random ex_env_swap) ([ex_bad_mc] @ [ex_bad_ms]) \<and>
   mset [ex_bad_ms, ex_bad_mc] = mset ([ex_bad_mc] @ [ex_bad_ms]) \<and>
   mset [ex_bad_mc, ex_bad_ms] = mset ([ex_bad_mc] @ [ex_bad_ms]) \<and>
   length [ex_bad_mc, ex_bad_ms] \<le> 2 ^ 52 \<and>
   (\<exists>rnd. random_ok rnd \<and>
      fst (generateQuestions (ex_env_swap\<lparr>random := rnd\<rparr>)
             ''Azure Blob Storage stores unstructured data.'' [] 2) =
        Inr [ex_bad_mc, ex_bad_ms]) \<and>
   random_ok (\<lambda>k. 1 / 4) \<and>
   fst (generateQuestions (ex_env_swap\<lparr>random := \<lambda>k. 1 / 4\<rparr>)
          ''Azure Blob Storage stores unstructured data.'' [] 2) =
     Inr [ex_bad_ms, ex_bad_mc] \<and>
   random_index (1 / 4) (Suc 0) = random_index 0 (Suc 0)"
proof -
  let ?g = "''Azure Blob Storage stores unstructured data.''"
  have b1: "(if 0 < multipleChoiceCount 2
             then fst (generateMultipleChoiceQuestions ex_env_swap (combinedContent ?g [])
                        (multipleChoiceCount 2))
             else Inr []) = Inr [ex_bad_mc]"
    using ex_batches(1)[of ?g]
    by (simp add: multipleChoiceCount_2 ex_env_swap_def batches_random)
  have b2: "(if 0 < multipleSelectCount 2
             then fst (generateMultipleSelectQuestions ex_env_swap (combinedContent ?g [])
                        (multipleSelectCount 2))
             else Inr []) = Inr [ex_bad_ms]"
    using ex_batches(2)[of ?g]
    by (simp add: multipleChoiceCount_2 multipleSelectCount_def ex_env_swap_def
        batches_random)
  have sw: "ex_env_swap\<lparr>random := rnd\<rparr> = ex_env\<lparr>random := rnd\<rparr>" for rnd
    by (simp add: ex_env_swap_def)
  have s0: "shuffleArray (\<lambda>k. 0) [ex_bad_mc, ex_bad_ms] = [ex_bad_ms, ex_bad_mc]"
    by (simp add: shuffleArray_def random_index_zero swap_def)
  have s4: "shuffleArray (\<lambda>k. 1 / 4) [ex_bad_mc, ex_bad_ms] = [ex_bad_ms, ex_bad_mc]"
    by (simp add: shuffleArray_def random_index_quarter swap_def)
  have h1: "random_ok (random ex_env_swap)"
    by (simp add: random_ok_def ex_env_swap_def)
  have h2: "fst (generateQuestions ex_env_swap ?g [] 2) = Inr [ex_bad_ms, ex_bad_mc]"
    using generateQuestions_random[OF b1 b2, of "\<lambda>k. 0"] s0
    by (simp add: ex_env_swap_def)
  have h3: "random_ok (\<lambda>k. 1 / 4)" by (simp add: random_ok_def)
  have h4: "fst (generateQuestions (ex_env_swap\<lparr>random := \<lambda>k. 1 / 4\<rparr>) ?g [] 2) =
              Inr [ex_bad_ms, ex_bad_mc]"
    using generateQuestions_random[OF b1 b2, of "\<lambda>k. 1 / 4"] s4 by simp
  have h5: "mset [ex_bad_mc, ex_bad_ms] = mset ([ex_bad_mc] @ [ex_bad_ms])" by simp
  have h6: "length [ex_bad_mc, ex_bad_ms] \<le> 2 ^ 52" by simp
  from generateQuestions_is_permutation[OF h1 h2] obtain mcq msq where
    r: "(if 0 < multipleChoiceCount 2
         then fst (generateMultipleChoiceQuestions ex_env_swap (combinedContent ?g [])
                    (multipleChoiceCount 2))
         else Inr []) = Inr mcq"
       "(if 0 < multipleSelectCount 2
         then fst (generateMultipleSelectQuestions ex_env_swap (combinedContent ?g [])
                    (multipleSelectCount 2))
         else Inr []) = Inr msq"
    and c: "[ex_bad_ms, ex_bad_mc] = shuffleArray (random ex_env_swap) (mcq @ msq)"
       "mset [ex_bad_ms, ex_bad_mc] = mset (mcq @ msq)"
       "\<forall>ys. mset ys = mset (mcq @ msq) \<and> length ys \<le> 2 ^ 52 \<longrightarrow>
          (\<exists>rnd. random_ok rnd \<and>
             fst (generateQuestions (ex_env_swap\<lparr>random := rnd\<rparr>) ?g [] 2) = Inr ys)"
       "\<forall>rnd. random_ok rnd \<and>
             fst (generateQuestions (ex_env_swap\<lparr>random := rnd\<rparr>) ?g [] 2) =
               Inr [ex_bad_ms, ex_bad_mc] \<longrightarrow>
          (\<forall>m < length [ex_bad_ms, ex_bad_mc] - 1.
             random_index (rnd m) (length [ex_bad_ms, ex_bad_mc] - 1 - m) =
             random_index (random ex_env_swap m) (length [ex_bad_ms, ex_bad_mc] - 1 - m))"
    by blast
  from r b1 b2 have m: "mcq = [ex_bad_mc]" "msq = [ex_bad_ms]" by simp_all
  from c(3) h5 h6 have 3: "\<exists>rnd. random_ok rnd \<and>
      fst (generateQuestions (ex_env_swap\<lparr>random := rnd\<rparr>) ?g [] 2) =
        Inr [ex_bad_mc, ex_bad_ms]"
    unfolding m by blast
  from c(4) h3 h4 have "\<forall>m < length [ex_bad_ms, ex_bad_mc] - 1.
             random_index (1 / 4) (length [ex_bad_ms, ex_bad_mc] - 1 - m) =
             random_index (random ex_env_swap m) (length [ex_bad_ms, ex_bad_mc] - 1 - m)"
    by blast
  then have 4: "random_index (1 / 4) (Suc 0) = random_index 0 (Suc 0)"
    by (simp add: ex_env_swap_def)
  from h1 h2 c(1,2) h5 h6 3 h3 h4 4 show ?thesis
    unfolding m by blast
qed

text \<open>
  Claim C10.  The ids of the questions \<^verbatim>\<open>generateQuestions\<close> returns are pairwise distinct, and
  each has the form \<^verbatim>\<open>mc-<timestamp>-<index>\<close> for a single-answer question and
  \<^verbatim>\<open>ms-<timestamp>-<index>\<close> for a multi-answer question.
\<close>

theorem question_ids_distinct:
  assumes "random_ok (random e)" and "fst (generateQuestions e guide web n) = Inr qs"
  shows "distinct (map qid qs) \<and>
         (\<forall>q \<in> set qs. \<exists>t i.
            qid q = (case qtype q of MultipleChoice \<Rightarrow> ''mc-'' | MultipleSelect \<Rightarrow> ''ms-'') @
                    show_nat t @ ''-'' @ show_nat i)"
proof -
  from generateQuestions_result[OF assms(2)] obtain mcq msq where
    r: "(if 0 < multipleChoiceCount n
         then fst (generateMultipleChoiceQuestions e (combinedContent guide web)
                    (multipleChoiceCount n))
         else Inr []) = Inr mcq"
       "(if 0 < multipleSelectCount n
         then fst (generateMultipleSelectQuestions e (combinedContent guide web)
                    (multipleSelectCount n))
         else Inr []) = Inr msq"
       "qs = shuffleArray (random e) (mcq @ msq)"
    by blast
  obtain pmc where pmc: "mcq = map_index (mc_to_question (mc_now e)) pmc"
  proof (cases "0 < multipleChoiceCount n")
    case True
    with r(1) have "fst (generateMultipleChoiceQuestions e (combinedContent guide web)
                          (multipleChoiceCount n)) = Inr mcq" by simp
    from mc_batch_result[OF this] obtain p where "mcq = map_index (mc_to_question (mc_now e)) p"
      by blast
    then show ?thesis by (rule that)
  next
    case False
    with r(1) have "mcq = map_index (mc_to_question (mc_now e)) []"
      by (simp add: map_index_def)
    with that show ?thesis by blast
  qed
  obtain pms where pms: "msq = map_index (ms_to_question (ms_now e)) pms"
  proof (cases "0 < multipleSelectCount n")
    case True
    with r(2) have "fst (generateMultipleSelectQuestions e (combinedContent guide web)
                          (multipleSelectCount n)) = Inr msq" by simp
    from ms_batch_result[OF this] obtain p where "msq = map_index (ms_to_question (ms_now e)) p"
      by blast
    then show ?thesis by (rule that)
  next
    case False
    with r(2) have "msq = map_index (ms_to_question (ms_now e)) []"
      by (simp add: map_index_def)
    with that show ?thesis by blast
  qed
  have perm: "mset qs = mset (mcq @ msq)"
    unfolding r(3) by (rule shuffleArray_mset[OF assms(1)])
  have d1: "distinct (map qid mcq)" unfolding pmc mc_ids by (rule distinct_question_ids)
  have d2: "distinct (map qid msq)" unfolding pms ms_ids by (rule distinct_question_ids)
  have disj: "set (map qid mcq) \<inter> set (map qid msq) = {}"
    unfolding pmc pms mc_ids ms_ids by auto
  have "distinct (map qid (mcq @ msq))"
    using d1 d2 disj by simp
  moreover have "mset (map qid qs) = mset (map qid (mcq @ msq))"
    using perm by (metis mset_map)
  ultimately have D: "distinct (map qid qs)"
    by (metis mset_eq_imp_distinct_iff)
  have form: "\<exists>t i. qid q = (case qtype q of MultipleChoice \<Rightarrow> ''mc-'' | MultipleSelect \<Rightarrow> ''ms-'') @
                    show_nat t @ ''-'' @ show_nat i" if "q \<in> set qs" for q
  proof -
    from that perm have "q \<in> set (mcq @ msq)" by (metis mset_eq_setD)
    then consider "q \<in> set mcq" | "q \<in> set msq" by auto
    then show ?thesis
    proof cases
      case 1
      then have t: "qtype q = MultipleChoice" unfolding pmc by (rule mc_types)
      from 1 have "qid q \<in> set (map qid mcq)" by simp
      then obtain i where "qid q = ''mc-'' @ show_nat (mc_now e i) @ ''-'' @ show_nat i"
        unfolding pmc mc_ids by auto
      with t show ?thesis by auto
    next
      case 2
      then have t: "qtype q = MultipleSelect" unfolding pms by (rule ms_types)
      from 2 have "qid q \<in> set (map qid msq)" by simp
      then obtain i where "qid q = ''ms-'' @ show_nat (ms_now e i) @ ''-'' @ show_nat i"
        unfolding pms ms_ids by auto
      with t show ?thesis by auto
    qed
  qed
  from D form show ?thesis by blast
qed

theorem question_ids_distinct_witness:
  "fst (generateQuestions ex_env ''Azure Blob Storage stores unstructured data.'' [] 2) =
     Inr [ex_bad_mc, ex_bad_ms] \<and>
   distinct (map qid [ex_bad_mc, ex_bad_ms]) \<and>
   map qid [ex_bad_mc, ex_bad_ms] = [''mc-1700000000000-0'', ''ms-1700000000001-0'']"
proof -
  let ?g = "''Azure Blob Storage stores unstructured data.''"
  have h2: "fst (generateQuestions ex_env ?g [] 2) = Inr [ex_bad_mc, ex_bad_ms]"
    by (rule ex_generate_2)
  from question_ids_distinct[OF ex_random_ok h2] h2
  show ?thesis
    by (simp add: ex_bad_mc_def ex_bad_ms_def)
qed



section \<open>Properties of the test assembler\<close>



















end
